theory Spec2Isabelle
  imports Complex_Main
begin

section \<open>Data model of the 3D crossword (sketch.js)\<close>

text \<open>
  The sketch keeps its puzzle in global variables: the dimensions \<open>NX\<close>, \<open>NY\<close>,
  \<open>NZ\<close>, the dense array \<open>world[z][y][x]\<close> of mutable cell objects, and the clue
  lists \<open>clues.R\<close>, \<open>clues.D\<close>, \<open>clues.I\<close>. The embedding threads them as one
  record. Coordinates that come from a puzzle record are integers (they may be
  negative), dimensions are natural numbers, and \<open>console.error\<close> calls are recorded
  in \<open>errlog\<close>, in the order in which they are issued.
\<close>

record cell =
  block :: bool
  ch :: string
  sol :: string
  numR :: int
  numD :: int
  numI :: int

type_synonym coord = "int \<times> int \<times> int"

datatype dir = DirR | DirD | DirI

record clue =
  clue_n :: int
  clue_start :: coord
  clue_len :: nat
  clue_hint :: "string option"
  clue_answer :: "string option"

record word =
  w_dir :: dir
  w_start :: coord
  w_answer :: "string option"
  w_clue :: "string option"

datatype diag =
    WordOutOfBounds word coord
  | WordHitsBlock word coord
  | CrossingConflict word coord string string

record state =
  NX :: nat
  NY :: nat
  NZ :: nat
  world :: "cell list list list"
  cluesR :: "clue list"
  cluesD :: "clue list"
  cluesI :: "clue list"
  errlog :: "diag list"

text \<open>
  A puzzle record as \<open>loadPuzzleFromJSON\<close> reads it. The source treats an absent
  list and an empty list alike everywhere (\<open>js.blocks ?? []\<close>,
  \<open>Array.isArray(js.words) && js.words.length > 0\<close>, \<open>js.solution ?? []\<close>,
  \<open>js.clues.R?.length\<close>, \<open>js.clues.R ?? []\<close>), so an absent list is the empty list here.
\<close>

record puzzle_json =
  js_nx :: nat
  js_ny :: nat
  js_nz :: nat
  js_blocks :: "coord list"
  js_words :: "word list"
  js_solution :: "(coord \<times> string option) list"
  js_cluesR :: "clue list"
  js_cluesD :: "clue list"
  js_cluesI :: "clue list"

subsection \<open>World helpers\<close>

definition empty_cell :: cell where
  "empty_cell = \<lparr>block = False, ch = [], sol = [], numR = 0, numD = 0, numI = 0\<rparr>"

definition inBounds :: "state \<Rightarrow> int \<Rightarrow> int \<Rightarrow> int \<Rightarrow> bool" where
  "inBounds st x y z \<longleftrightarrow>
     x \<ge> 0 \<and> x < int (NX st) \<and> y \<ge> 0 \<and> y < int (NY st) \<and> z \<ge> 0 \<and> z < int (NZ st)"

text \<open>
  \<open>cell(x, y, z)\<close> is \<open>world[z][y][x]\<close>. Every call of it in the modelled code is
  made under \<open>inBounds\<close> or inside loops that run over the dimensions.
\<close>

definition cell :: "state \<Rightarrow> int \<Rightarrow> int \<Rightarrow> int \<Rightarrow> cell" where
  "cell st x y z = world st ! nat z ! nat y ! nat x"

text \<open>A write to fields of the cell object \<open>world[z][y][x]\<close>.\<close>

definition upd :: "state \<Rightarrow> int \<Rightarrow> int \<Rightarrow> int \<Rightarrow> (cell \<Rightarrow> cell) \<Rightarrow> state" where
  "upd st x y z f =
     st\<lparr>world := (world st)[nat z := (world st ! nat z)[nat y :=
           (world st ! nat z ! nat y)[nat x := f (cell st x y z)]]]\<rparr>"

text \<open>The three nested allocation loops: every cell a fresh open, empty, unnumbered object.\<close>

definition emptyWorld :: "nat \<Rightarrow> nat \<Rightarrow> nat \<Rightarrow> state" where
  "emptyWorld nx ny nz =
     \<lparr>NX = nx, NY = ny, NZ = nz,
      world = replicate nz (replicate ny (replicate nx empty_cell)),
      cluesR = [], cluesD = [], cluesI = [], errlog = []\<rparr>"

text \<open>The scan order \<open>for z, for y, for x\<close> used by every pass over the volume.\<close>

definition allCells :: "state \<Rightarrow> coord list" where
  "allCells st =
     concat (map (\<lambda>z. concat (map (\<lambda>y. map (\<lambda>x. (int x, int y, int z)) [0..<NX st])
       [0..<NY st])) [0..<NZ st])"

fun dx :: "dir \<Rightarrow> int" where
  "dx d = (if d = DirR then 1 else 0)"

fun dy :: "dir \<Rightarrow> int" where
  "dy d = (if d = DirD then 1 else 0)"

fun dz :: "dir \<Rightarrow> int" where
  "dz d = (if d = DirI then 1 else 0)"

subsection \<open>Numbering and hints\<close>

definition clearNumbers :: "state \<Rightarrow> state" where
  "clearNumbers st =
     foldl (\<lambda>s (x, y, z). upd s x y z (\<lambda>ce. ce\<lparr>numR := 0, numD := 0, numI := 0\<rparr>))
       st (allCells st)"

definition setNum :: "dir \<Rightarrow> clue \<Rightarrow> state \<Rightarrow> state" where
  "setNum kind c st =
     (case clue_start c of (x, y, z) \<Rightarrow>
        if \<not> inBounds st x y z then st
        else upd st x y z (\<lambda>ce.
               if kind = DirR then ce\<lparr>numR := clue_n c\<rparr>
               else if kind = DirD then ce\<lparr>numD := clue_n c\<rparr>
               else ce\<lparr>numI := clue_n c\<rparr>))"

definition applyNumbers :: "state \<Rightarrow> state" where
  "applyNumbers st =
     (let s1 = foldl (\<lambda>s c. setNum DirR c s) st (cluesR st);
          s2 = foldl (\<lambda>s c. setNum DirD c s) s1 (cluesD s1)
      in foldl (\<lambda>s c. setNum DirI c s) s2 (cluesI s2))"

text \<open>JavaScript's \<open>!c.hint\<close>: true for a missing hint and for the empty string.\<close>

definition noHint :: "clue \<Rightarrow> bool" where
  "noHint c \<longleftrightarrow> (case clue_hint c of None \<Rightarrow> True | Some h \<Rightarrow> h = [])"

text \<open>
  \<open>ensureHintFields\<close>: the loop over \<open>clues.R\<close> only prints each clue (its
  hint-filling line is commented out in the source); the loops over \<open>clues.D\<close> and
  \<open>clues.I\<close> fill a missing hint.
\<close>

definition ensureHintFields :: "state \<Rightarrow> state" where
  "ensureHintFields st =
     st\<lparr>cluesD := map (\<lambda>c. if noHint c then c\<lparr>clue_hint := Some ''alla''\<rparr> else c) (cluesD st),
        cluesI := map (\<lambda>c. if noHint c then c\<lparr>clue_hint := Some ''sisse''\<rparr> else c) (cluesI st)\<rparr>"

subsection \<open>Runs: word length and answer reading\<close>

text \<open>
  \<open>wordLen(x, y, z, dx, dy, dz)\<close> and \<open>readWordFromSolution(start, dx, dy, dz)\<close>
  are only ever called with the three unit steps \<open>(1,0,0)\<close>, \<open>(0,1,0)\<close>,
  \<open>(0,0,1)\<close>; the step is given here by its direction, so that the loops terminate
  for every argument.
\<close>

function wordLen :: "state \<Rightarrow> int \<Rightarrow> int \<Rightarrow> int \<Rightarrow> dir \<Rightarrow> nat" where
  "wordLen st x y z d =
     (if inBounds st x y z \<and> \<not> block (cell st x y z)
      then Suc (wordLen st (x + dx d) (y + dy d) (z + dz d) d)
      else 0)"
  by pat_completeness auto
termination
  by (relation "measure (\<lambda>(st, x, y, z, d).
        nat (int (NX st) - x) + nat (int (NY st) - y) + nat (int (NZ st) - z))")
     (auto simp: inBounds_def intro: dir.exhaust)

declare wordLen.simps [simp del]

text \<open>\<open>cell(x, y, z).sol || "?"\<close>: an empty solution letter reads as the placeholder.\<close>

definition solOrPlaceholder :: "cell \<Rightarrow> string" where
  "solOrPlaceholder ce = (if sol ce = [] then ''?'' else sol ce)"

function readWordFromSolution :: "state \<Rightarrow> coord \<Rightarrow> dir \<Rightarrow> string" where
  "readWordFromSolution st (x, y, z) d =
     (if inBounds st x y z \<and> \<not> block (cell st x y z)
      then solOrPlaceholder (cell st x y z)
             @ readWordFromSolution st (x + dx d, y + dy d, z + dz d) d
      else [])"
  by pat_completeness auto
termination
  by (relation "measure (\<lambda>(st, (x, y, z), d).
        nat (int (NX st) - x) + nat (int (NY st) - y) + nat (int (NZ st) - z))")
     (auto simp: inBounds_def intro: dir.exhaust)

declare readWordFromSolution.simps [simp del]

definition attachAnswersToClues :: "state \<Rightarrow> state" where
  "attachAnswersToClues st =
     st\<lparr>cluesR := map (\<lambda>c. c\<lparr>clue_answer := Some (readWordFromSolution st (clue_start c) DirR)\<rparr>)
                 (cluesR st),
        cluesD := map (\<lambda>c. c\<lparr>clue_answer := Some (readWordFromSolution st (clue_start c) DirD)\<rparr>)
                 (cluesD st),
        cluesI := map (\<lambda>c. c\<lparr>clue_answer := Some (readWordFromSolution st (clue_start c) DirI)\<rparr>)
                 (cluesI st)\<rparr>"

subsection \<open>Clue extraction\<close>

definition startsR :: "state \<Rightarrow> int \<Rightarrow> int \<Rightarrow> int \<Rightarrow> bool" where
  "startsR st x y z \<longleftrightarrow>
     (x = 0 \<or> block (cell st (x - 1) y z)) \<and> (x + 1 < int (NX st) \<and> \<not> block (cell st (x + 1) y z))"

definition startsD :: "state \<Rightarrow> int \<Rightarrow> int \<Rightarrow> int \<Rightarrow> bool" where
  "startsD st x y z \<longleftrightarrow>
     (y = 0 \<or> block (cell st x (y - 1) z)) \<and> (y + 1 < int (NY st) \<and> \<not> block (cell st x (y + 1) z))"

definition startsI :: "state \<Rightarrow> int \<Rightarrow> int \<Rightarrow> int \<Rightarrow> bool" where
  "startsI st x y z \<longleftrightarrow>
     (z = 0 \<or> block (cell st x y (z - 1))) \<and> (z + 1 < int (NZ st) \<and> \<not> block (cell st x y (z + 1)))"

text \<open>
  One iteration of the scan in \<open>computeCluesFromWorld\<close>; the accumulator is the
  counter \<open>n\<close> and the three lists \<open>R\<close>, \<open>D\<close>, \<open>I\<close>.
\<close>

fun clueStep :: "state \<Rightarrow> int \<times> clue list \<times> clue list \<times> clue list \<Rightarrow> coord
                  \<Rightarrow> int \<times> clue list \<times> clue list \<times> clue list" where
  "clueStep st (k, rs, ds, is) (x, y, z) =
     (if block (cell st x y z) then (k, rs, ds, is)
      else
        let k' = (if startsR st x y z \<or> startsD st x y z \<or> startsI st x y z then k + 1 else k)
        in (k',
            (if startsR st x y z
             then rs @ [\<lparr>clue_n = k', clue_start = (x, y, z), clue_len = wordLen st x y z DirR,
                         clue_hint = Some ''paremale'', clue_answer = None\<rparr>]
             else rs),
            (if startsD st x y z
             then ds @ [\<lparr>clue_n = k', clue_start = (x, y, z), clue_len = wordLen st x y z DirD,
                         clue_hint = Some ''alla'', clue_answer = None\<rparr>]
             else ds),
            (if startsI st x y z
             then is @ [\<lparr>clue_n = k', clue_start = (x, y, z), clue_len = wordLen st x y z DirI,
                         clue_hint = Some ''sisse'', clue_answer = None\<rparr>]
             else is)))"

definition computeCluesFromWorld :: "state \<Rightarrow> clue list \<times> clue list \<times> clue list" where
  "computeCluesFromWorld st = snd (foldl (clueStep st) (0, [], [], []) (allCells st))"

text \<open>
  \<open>computeDirectionalCluesJSON\<close> (used after generation) is the same scan, written
  with a local \<open>len\<close> in each branch.
\<close>

fun clueStepJSON :: "state \<Rightarrow> int \<times> clue list \<times> clue list \<times> clue list \<Rightarrow> coord
                  \<Rightarrow> int \<times> clue list \<times> clue list \<times> clue list" where
  "clueStepJSON st (k, rs, ds, is) (x, y, z) =
     (if block (cell st x y z) then (k, rs, ds, is)
      else
        let sR = startsR st x y z; sD = startsD st x y z; sI = startsI st x y z;
            k' = (if sR \<or> sD \<or> sI then k + 1 else k);
            rs' = (if sR then (let l = wordLen st x y z DirR in
                     rs @ [\<lparr>clue_n = k', clue_start = (x, y, z), clue_len = l,
                            clue_hint = Some ''paremale'', clue_answer = None\<rparr>]) else rs);
            ds' = (if sD then (let l = wordLen st x y z DirD in
                     ds @ [\<lparr>clue_n = k', clue_start = (x, y, z), clue_len = l,
                            clue_hint = Some ''alla'', clue_answer = None\<rparr>]) else ds);
            is' = (if sI then (let l = wordLen st x y z DirI in
                     is @ [\<lparr>clue_n = k', clue_start = (x, y, z), clue_len = l,
                            clue_hint = Some ''sisse'', clue_answer = None\<rparr>]) else is)
        in (k', rs', ds', is'))"

definition computeDirectionalCluesJSON :: "state \<Rightarrow> clue list \<times> clue list \<times> clue list" where
  "computeDirectionalCluesJSON st = snd (foldl (clueStepJSON st) (0, [], [], []) (allCells st))"

subsection \<open>Loading a puzzle record\<close>

text \<open>
  A string is the sequence of its code units, and a letter of an answer is one code
  unit. The first 128 characters of the embedding are the ASCII code units. The
  loader tells the other code units apart only by equality and by their upper-case
  forms, so the remaining 128 characters stand for the further code units that a
  record uses (those of Latin-1 under their own numbers; not the halves of a
  surrogate pair, which are upper-cased together).

  JavaScript's \<open>String.prototype.toUpperCase\<close> converts a string code point by
  code point with the Unicode case mapping, without regard to locale or context,
  and a code point may become several (the sharp s, code unit 223, becomes
  \<open>SS\<close>), so the result can be longer than the argument. On ASCII the mapping
  is fixed here: \<open>a\<close>..\<open>z\<close> become \<open>A\<close>..\<open>Z\<close> and every other
  character is kept. The Unicode table for the other code units is not part of the
  repository; it is a parameter \<open>tbl\<close> of the loader, \<open>tbl c\<close> being the
  upper-case form of \<open>c\<close> (for the letters of the sketch's own alphabet the table
  sends the o with tilde, code unit 245, to code unit 213, the a with diaeresis,
  228, to 196, and so on). Everything that is proved about the loader is proved for
  every table.
\<close>

type_synonym caseTable = "char \<Rightarrow> string"

definition upperChar :: "caseTable \<Rightarrow> char \<Rightarrow> string" where
  "upperChar tbl c =
     (if of_char c < (128::nat)
      then [if (97::nat) \<le> of_char c \<and> of_char c \<le> (122::nat)
            then char_of (of_char c - (32::nat)) else c]
      else tbl c)"

definition toUpperCase :: "caseTable \<Rightarrow> string \<Rightarrow> string" where
  "toUpperCase tbl s = concat (map (upperChar tbl) s)"

text \<open>\<open>w.answer ?? ""\<close>.\<close>

definition answerOf :: "word \<Rightarrow> string" where
  "answerOf w = (case w_answer w of None \<Rightarrow> [] | Some a \<Rightarrow> a)"

definition logErr :: "diag \<Rightarrow> state \<Rightarrow> state" where
  "logErr e st = st\<lparr>errlog := errlog st @ [e]\<rparr>"

text \<open>
  The inner loop \<open>for (i = 0; i < ans.length; i++)\<close> of step 1 of Format A, over the
  remaining letters of the answer; both \<open>break\<close>s end it.
\<close>

fun writeLetters :: "word \<Rightarrow> string \<Rightarrow> int \<Rightarrow> int \<Rightarrow> int \<Rightarrow> state \<Rightarrow> state" where
  "writeLetters w [] x y z st = st"
| "writeLetters w (c # cs) x y z st =
     (if \<not> inBounds st x y z then logErr (WordOutOfBounds w (x, y, z)) st
      else if block (cell st x y z) then logErr (WordHitsBlock w (x, y, z)) st
      else
        let had = sol (cell st x y z);
            s1 = (if had \<noteq> [] \<and> had \<noteq> [c]
                  then logErr (CrossingConflict w (x, y, z) had [c]) st else st);
            s2 = upd s1 x y z (\<lambda>ce. ce\<lparr>sol := [c]\<rparr>)
        in writeLetters w cs (x + dx (w_dir w)) (y + dy (w_dir w)) (z + dz (w_dir w)) s2)"

definition writeWord :: "caseTable \<Rightarrow> state \<Rightarrow> word \<Rightarrow> state" where
  "writeWord tbl st w =
     (case w_start w of (x, y, z) \<Rightarrow> writeLetters w (toUpperCase tbl (answerOf w)) x y z st)"

text \<open>
  Decimal rendering of an integer inside the template literal
  \<open>`${w.start.x},${w.start.y},${w.start.z}`\<close>, the key of \<open>startToNumber\<close>.
\<close>

fun digits :: "nat \<Rightarrow> string" where
  "digits k = (if k < 10 then [char_of (48 + k)]
               else digits (k div 10) @ [char_of (48 + k mod 10)])"

declare digits.simps [simp del]

definition showInt :: "int \<Rightarrow> string" where
  "showInt i = (if i < 0 then CHR ''-'' # digits (nat (- i)) else digits (nat i))"

definition startKey :: "coord \<Rightarrow> string" where
  "startKey p = (case p of (x, y, z) \<Rightarrow> showInt x @ '','' @ showInt y @ '','' @ showInt z)"

definition defaultHint :: "dir \<Rightarrow> string" where
  "defaultHint d = (if d = DirR then ''paremale'' else if d = DirD then ''alla'' else ''sisse'')"

definition pushClue :: "dir \<Rightarrow> clue \<Rightarrow> state \<Rightarrow> state" where
  "pushClue d c st =
     (case d of DirR \<Rightarrow> st\<lparr>cluesR := cluesR st @ [c]\<rparr>
              | DirD \<Rightarrow> st\<lparr>cluesD := cluesD st @ [c]\<rparr>
              | DirI \<Rightarrow> st\<lparr>cluesI := cluesI st @ [c]\<rparr>)"

text \<open>
  Step 2 of Format A: the loop over \<open>js.words\<close> with the map \<open>startToNumber\<close>
  and the counter \<open>nextN\<close>. \<open>if (!n)\<close> holds for a missing key and for a stored 0.
\<close>

fun buildClues :: "caseTable \<Rightarrow> word list \<Rightarrow> (string \<Rightarrow> int option) \<Rightarrow> int \<Rightarrow> state \<Rightarrow> state"
  where
  "buildClues tbl [] m nextN st = st"
| "buildClues tbl (w # ws) m nextN st =
     (let key = startKey (w_start w);
          fresh = (case m key of None \<Rightarrow> True | Some k \<Rightarrow> k = 0);
          k = (if fresh then nextN else the (m key));
          m' = (if fresh then m(key \<mapsto> nextN) else m);
          nextN' = (if fresh then nextN + 1 else nextN);
          c = \<lparr>clue_n = k, clue_start = w_start w, clue_len = length (answerOf w),
               clue_hint = Some (case w_clue w of None \<Rightarrow> defaultHint (w_dir w) | Some h \<Rightarrow> h),
               clue_answer = Some (toUpperCase tbl (answerOf w))\<rparr>
      in buildClues tbl ws m' nextN' (pushClue (w_dir w) c st))"

text \<open>
  The statement \<open>world[b.z][b.y][b.x].block = true\<close> of the block loop. JavaScript
  reads \<open>world[b.z]\<close>, then its element \<open>[b.y]\<close>, then that element's \<open>[b.x]\<close>,
  and assigns to the \<open>block\<close> property of the result. An index that is negative or
  not below the length of its array reads \<open>undefined\<close>, and reading an element of
  \<open>undefined\<close> or assigning to a property of it throws a \<open>TypeError\<close>, which
  nothing in the sketch catches: the load is then abandoned.
\<close>

datatype error = TypeError

definition markBlock :: "state \<Rightarrow> int \<Rightarrow> int \<Rightarrow> int \<Rightarrow> error + state" where
  "markBlock st x y z =
     (if 0 \<le> z \<and> z < int (length (world st)) then
        (if 0 \<le> y \<and> y < int (length (world st ! nat z)) then
           (if 0 \<le> x \<and> x < int (length (world st ! nat z ! nat y))
            then Inr (upd st x y z (\<lambda>ce. ce\<lparr>block := True\<rparr>))
            else Inl TypeError)
         else Inl TypeError)
      else Inl TypeError)"

text \<open>
  The loop \<open>for (const b of (js.blocks ?? [])) if (inBounds(b.x, b.y, b.z)) ...\<close>.
\<close>

fun applyBlocks :: "coord list \<Rightarrow> state \<Rightarrow> error + state" where
  "applyBlocks [] st = Inr st"
| "applyBlocks ((x, y, z) # bs) st =
     (if inBounds st x y z
      then (case markBlock st x y z of Inl e \<Rightarrow> Inl e | Inr t \<Rightarrow> applyBlocks bs t)
      else applyBlocks bs st)"

definition applySolution :: "(coord \<times> string option) list \<Rightarrow> state \<Rightarrow> state" where
  "applySolution ss st =
     foldl (\<lambda>s ((x, y, z), c).
              if \<not> inBounds s x y z then s
              else if \<not> block (cell s x y z)
                   then upd s x y z (\<lambda>ce. ce\<lparr>sol := (case c of None \<Rightarrow> [] | Some t \<Rightarrow> t)\<rparr>)
                   else s)
       st ss"

definition hasClues :: "puzzle_json \<Rightarrow> bool" where
  "hasClues js \<longleftrightarrow> js_cluesR js \<noteq> [] \<or> js_cluesD js \<noteq> [] \<or> js_cluesI js \<noteq> []"

text \<open>
  The loader. It rebuilds the world at the record's dimensions and marks the blocks;
  \<open>loadAfterBlocks\<close> is the rest of its body, which resets the clue lists and the
  numbering and then follows Format A (a non-empty word list) or Format B (solution
  letters with explicit or derived clues). The result is the error the block loop
  threw, or the new global state together with the diagnostics that were printed;
  the final assignment \<open>puzzle = js\<close>, which only keeps the record for the download
  button, is left out. After the block loop every access to the grid is written
  with the total \<open>cell\<close> and \<open>upd\<close>: each of them is made under \<open>inBounds\<close> on
  the same world or inside loops over its dimensions.
\<close>

definition loadAfterBlocks :: "caseTable \<Rightarrow> puzzle_json \<Rightarrow> state \<Rightarrow> state" where
  "loadAfterBlocks tbl js s1 =
     (let s2 = clearNumbers (s1\<lparr>cluesR := [], cluesD := [], cluesI := []\<rparr>)
      in if js_words js \<noteq> [] then
           (let s3 = foldl (writeWord tbl) s2 (js_words js);
                s4 = buildClues tbl (js_words js) Map.empty 1 s3
            in attachAnswersToClues (applyNumbers s4))
         else
           (let s3 = applySolution (js_solution js) s2;
                s4 = (if hasClues js
                      then ensureHintFields
                             (s3\<lparr>cluesR := js_cluesR js, cluesD := js_cluesD js, cluesI := js_cluesI js\<rparr>)
                      else (case computeCluesFromWorld s3 of (rs, ds, is) \<Rightarrow>
                             ensureHintFields (s3\<lparr>cluesR := rs, cluesD := ds, cluesI := is\<rparr>)))
            in attachAnswersToClues (applyNumbers s4)))"

definition loadPuzzleFromJSON :: "caseTable \<Rightarrow> puzzle_json \<Rightarrow> error + state" where
  "loadPuzzleFromJSON tbl js =
     (case applyBlocks (js_blocks js) (emptyWorld (js_nx js) (js_ny js) (js_nz js)) of
        Inl e \<Rightarrow> Inl e
      | Inr s1 \<Rightarrow> Inr (loadAfterBlocks tbl js s1))"

section \<open>The generator\<close>

subsection \<open>Slice counts and slice connectivity\<close>

text \<open>
  The source has three copies of each slice helper, one per axis family, that differ
  only in which coordinate is fixed: \<open>XY\<close> scans \<open>for y, for x\<close>, \<open>XZ\<close>
  scans \<open>for z, for x\<close> and \<open>YZ\<close> scans \<open>for z, for y\<close>. Here the common body
  is written once over a slice of width \<open>U\<close> (the inner loop) and height \<open>V\<close>
  (the outer loop), with \<open>blk u v\<close> the block flag of the cell at \<open>(u, v)\<close> of the
  slice, and instantiated three times.
\<close>

definition sliceCells :: "nat \<Rightarrow> nat \<Rightarrow> (int \<times> int) list" where
  "sliceCells U V = concat (map (\<lambda>v. map (\<lambda>u. (int u, int v)) [0..<U]) [0..<V])"

definition sliceOpenCount :: "nat \<Rightarrow> nat \<Rightarrow> (int \<Rightarrow> int \<Rightarrow> bool) \<Rightarrow> nat" where
  "sliceOpenCount U V blk =
     foldl (\<lambda>c (u, v). if \<not> blk u v then c + 1 else c) 0 (sliceCells U V)"

definition sliceOpenCountXY :: "state \<Rightarrow> int \<Rightarrow> nat" where
  "sliceOpenCountXY st z = sliceOpenCount (NX st) (NY st) (\<lambda>x y. block (cell st x y z))"

definition sliceOpenCountXZ :: "state \<Rightarrow> int \<Rightarrow> nat" where
  "sliceOpenCountXZ st y = sliceOpenCount (NX st) (NZ st) (\<lambda>x z. block (cell st x y z))"

definition sliceOpenCountYZ :: "state \<Rightarrow> int \<Rightarrow> nat" where
  "sliceOpenCountYZ st x = sliceOpenCount (NY st) (NZ st) (\<lambda>y z. block (cell st x y z))"

definition neigh :: "(int \<times> int) list" where
  "neigh = [(1, 0), (- 1, 0), (0, 1), (0, - 1)]"

text \<open>
  The flood fill. \<open>vis\<close> is the \<open>Uint8Array(U * V)\<close> of the source, which only
  ever holds 0 or 1: it is the set of the indices that hold 1. The parallel stacks
  \<open>qx\<close>, \<open>qy\<close> are one list of pairs whose head is the top. \<open>visit\<close> is the body
  of the loop over \<open>neigh\<close> for the popped cell \<open>(cu, cv)\<close>.
\<close>

fun visit :: "nat \<Rightarrow> nat \<Rightarrow> (int \<Rightarrow> int \<Rightarrow> bool) \<Rightarrow> int \<times> int
                \<Rightarrow> nat set \<times> nat \<times> (int \<times> int) list \<Rightarrow> int \<times> int
                \<Rightarrow> nat set \<times> nat \<times> (int \<times> int) list" where
  "visit U V blk (cu, cv) (vis, seen, stack) (du, dv) =
     (let nu = cu + du; nv = cv + dv in
      if nu < 0 \<or> nu \<ge> int U \<or> nv < 0 \<or> nv \<ge> int V then (vis, seen, stack)
      else
        let idx = nat (nv * int U + nu) in
        if idx \<in> vis then (vis, seen, stack)
        else if blk nu nv then (vis, seen, stack)
        else (insert idx vis, seen + 1, (nu, nv) # stack))"

definition floodMeasure :: "nat \<Rightarrow> nat \<Rightarrow> nat set \<times> nat \<times> (int \<times> int) list \<Rightarrow> nat" where
  "floodMeasure U V s = 2 * card ({..<U * V} - fst s) + length (snd (snd s))"

lemma idx_bound:
  assumes "0 \<le> a" "a < int U" "0 \<le> b" "b < int V"
  shows "nat (b * int U + a) < U * V"
proof -
  obtain a' where a': "a = int a'" using assms(1) nonneg_int_cases by blast
  obtain b' where b': "b = int b'" using assms(3) nonneg_int_cases by blast
  have "a' < U" "Suc b' \<le> V" using assms a' b' by auto
  then have "b' * U + a' < Suc b' * U" by simp
  also have "\<dots> \<le> V * U" using \<open>Suc b' \<le> V\<close> by (rule mult_le_mono1)
  finally have "b' * U + a' < U * V" by (simp add: mult.commute)
  moreover have "nat (b * int U + a) = b' * U + a'"
    unfolding a' b' by (simp add: nat_add_distrib nat_mult_distrib)
  ultimately show ?thesis by simp
qed

lemma visit_measure: "floodMeasure U V (visit U V blk c s d) \<le> floodMeasure U V s"
proof (cases c, cases s, cases d)
  fix cu cv vis seen stack du dv
  assume eqs: "c = (cu, cv)" "s = (vis, seen, stack)" "d = (du, dv)"
  let ?nu = "cu + du" and ?nv = "cv + dv"
  let ?idx = "nat (?nv * int U + ?nu)"
  show ?thesis
  proof (cases "?nu < 0 \<or> ?nu \<ge> int U \<or> ?nv < 0 \<or> ?nv \<ge> int V \<or> ?idx \<in> vis \<or> blk ?nu ?nv")
    case True
    then show ?thesis unfolding eqs by (auto simp: Let_def)
  next
    case False
    then have in_range: "?idx < U * V" by (intro idx_bound) auto
    have fresh: "?idx \<notin> vis" using False by simp
    have "?idx \<in> {..<U * V} - vis" using in_range fresh by simp
    then have "card ({..<U * V} - insert ?idx vis) < card ({..<U * V} - vis)"
      by (intro psubset_card_mono) auto
    moreover have "visit U V blk c s d = (insert ?idx vis, seen + 1, (?nu, ?nv) # stack)"
      using False unfolding eqs by (simp add: Let_def)
    ultimately show ?thesis unfolding eqs by (simp add: floodMeasure_def)
  qed
qed

lemma foldl_visit_measure:
  "floodMeasure U V (foldl (visit U V blk c) s ds) \<le> floodMeasure U V s"
proof (induction ds arbitrary: s)
  case Nil
  show ?case by simp
next
  case (Cons d ds)
  have "floodMeasure U V (foldl (visit U V blk c) (visit U V blk c s d) ds)
          \<le> floodMeasure U V (visit U V blk c s d)" by (rule Cons.IH)
  also have "\<dots> \<le> floodMeasure U V s" by (rule visit_measure)
  finally show ?case by simp
qed

text \<open>
  The loop \<open>while (qx.length)\<close>: pop the top, visit its four neighbours, repeat.
  It returns \<open>seen\<close>.
\<close>

function flood :: "nat \<Rightarrow> nat \<Rightarrow> (int \<Rightarrow> int \<Rightarrow> bool)
                     \<Rightarrow> nat set \<times> nat \<times> (int \<times> int) list \<Rightarrow> nat" where
  "flood U V blk (vis, seen, []) = seen"
| "flood U V blk (vis, seen, c # stack) =
     flood U V blk (foldl (visit U V blk c) (vis, seen, stack) neigh)"
  by pat_completeness auto
termination
proof (relation "measure (\<lambda>(U, V, blk, s). floodMeasure U V s)")
  show "wf (measure (\<lambda>(U, V, blk, s). floodMeasure U V s))" by simp
next
  fix U V :: nat and blk vis and seen :: nat and c stack
  have "floodMeasure U V (foldl (visit U V blk c) (vis, seen, stack) neigh)
          \<le> floodMeasure U V (vis, seen, stack)" by (rule foldl_visit_measure)
  also have "\<dots> < floodMeasure U V (vis, seen, c # stack)" by (simp add: floodMeasure_def)
  finally show "((U, V, blk, foldl (visit U V blk c) (vis, seen, stack) neigh),
                 (U, V, blk, vis, seen, c # stack)) \<in> measure (\<lambda>(U, V, blk, s). floodMeasure U V s)"
    by simp
qed

text \<open>
  The first scan of \<open>isConnected..\<close>: the first open cell in scan order (\<open>start\<close>) and
  the number of open cells (\<open>open\<close>).
\<close>

definition scanOpen :: "nat \<Rightarrow> nat \<Rightarrow> (int \<Rightarrow> int \<Rightarrow> bool) \<Rightarrow> (int \<times> int) option \<times> nat" where
  "scanOpen U V blk =
     foldl (\<lambda>(start, opn) (u, v).
              if \<not> blk u v then ((if start = None then Some (u, v) else start), opn + 1)
              else (start, opn))
       (None, 0) (sliceCells U V)"

text \<open>
  \<open>start\<close> is set together with the first increment of \<open>open\<close>, so the branch
  for a missing \<open>start\<close> below is never taken once \<open>open\<close> is not 0.
\<close>

definition isConnected2D :: "nat \<Rightarrow> nat \<Rightarrow> (int \<Rightarrow> int \<Rightarrow> bool) \<Rightarrow> bool" where
  "isConnected2D U V blk =
     (case scanOpen U V blk of (start, opn) \<Rightarrow>
        if opn = 0 then False
        else (case start of
                None \<Rightarrow> False
              | Some (su, sv) \<Rightarrow>
                  flood U V blk ({nat (sv * int U + su)}, 1, [(su, sv)]) = opn))"

definition isConnectedXY :: "state \<Rightarrow> int \<Rightarrow> bool" where
  "isConnectedXY st zFix = isConnected2D (NX st) (NY st) (\<lambda>x y. block (cell st x y zFix))"

definition isConnectedXZ :: "state \<Rightarrow> int \<Rightarrow> bool" where
  "isConnectedXZ st yFix = isConnected2D (NX st) (NZ st) (\<lambda>x z. block (cell st x yFix z))"

definition isConnectedYZ :: "state \<Rightarrow> int \<Rightarrow> bool" where
  "isConnectedYZ st xFix = isConnected2D (NY st) (NZ st) (\<lambda>y z. block (cell st xFix y z))"

definition allSlicesConnected :: "state \<Rightarrow> bool" where
  "allSlicesConnected st \<longleftrightarrow>
     list_all (\<lambda>z. isConnectedXY st (int z)) [0..<NZ st] \<and>
     list_all (\<lambda>y. isConnectedXZ st (int y)) [0..<NY st] \<and>
     list_all (\<lambda>x. isConnectedYZ st (int x)) [0..<NX st]"

subsection \<open>Randomised block placement\<close>

record config =
  GEN_NX :: nat
  GEN_NY :: nat
  GEN_NZ :: nat
  targetBlockFrac :: rat
  minOpenPerSlice :: nat
  maxTries :: nat

definition CFG :: config where
  "CFG = \<lparr>GEN_NX = 24, GEN_NY = 24, GEN_NZ = 8, targetBlockFrac = 18 / 100,
          minOpenPerSlice = 12, maxTries = 30000\<rparr>"

text \<open>
  \<open>(Math.random() * k) | 0\<close>. The results of \<open>Math.random()\<close> are an input of the
  model: \<open>rnd i\<close> is what its \<open>i\<close>-th call returns (a number in \<open>[0, 1)\<close>), and
  every iteration of the loop makes three calls. Products are taken exactly, not
  in floating point.
\<close>

definition randomIndex :: "rat \<Rightarrow> nat \<Rightarrow> int" where
  "randomIndex r k = \<lfloor>r * of_nat k\<rfloor>"

function genLoop :: "config \<Rightarrow> (nat \<Rightarrow> rat) \<Rightarrow> int \<Rightarrow> state \<times> nat \<times> nat \<Rightarrow> state \<times> nat \<times> nat" where
  "genLoop cfg rnd targetBlocks (st, blocks, tries) =
     (if int blocks < targetBlocks \<and> tries < maxTries cfg then
        let x = randomIndex (rnd (3 * tries)) (NX st);
            y = randomIndex (rnd (3 * tries + 1)) (NY st);
            z = randomIndex (rnd (3 * tries + 2)) (NZ st)
        in if block (cell st x y z) then genLoop cfg rnd targetBlocks (st, blocks, tries + 1)
           else
             let st' = upd st x y z (\<lambda>ce. ce\<lparr>block := True\<rparr>) in
             if sliceOpenCountXY st' z \<ge> minOpenPerSlice cfg \<and>
                sliceOpenCountXZ st' y \<ge> minOpenPerSlice cfg \<and>
                sliceOpenCountYZ st' x \<ge> minOpenPerSlice cfg \<and>
                allSlicesConnected st'
             then genLoop cfg rnd targetBlocks (st', blocks + 1, tries + 1)
             else genLoop cfg rnd targetBlocks
                    (upd st' x y z (\<lambda>ce. ce\<lparr>block := False\<rparr>), blocks, tries + 1)
      else (st, blocks, tries))"
  by pat_completeness auto
termination
  by (relation "measure (\<lambda>(cfg, rnd, targetBlocks, st, blocks, tries). maxTries cfg - tries)") auto

declare genLoop.simps [simp del]

text \<open>
  \<open>generateConnectedBlocks\<close> works on the global world; the result here is the final
  world together with the final values of the locals \<open>blocks\<close> and \<open>tries\<close>.
\<close>

definition generateConnectedBlocks :: "config \<Rightarrow> (nat \<Rightarrow> rat) \<Rightarrow> state \<Rightarrow> state \<times> nat \<times> nat" where
  "generateConnectedBlocks cfg rnd st =
     (let total = NX st * NY st * NZ st;
          targetBlocks = \<lfloor>of_nat total * targetBlockFrac cfg\<rfloor>
      in genLoop cfg rnd targetBlocks (st, 0, 0))"

text \<open>The all-open world that \<open>generatePuzzleJSON\<close> builds before it places blocks.\<close>

definition generatorStart :: "config \<Rightarrow> state" where
  "generatorStart cfg = emptyWorld (GEN_NX cfg) (GEN_NY cfg) (GEN_NZ cfg)"

section \<open>Notions used in the statements and proofs\<close>

text \<open>
  The world in which the entries of a block list that lie inside the dimensions are
  blocked. It is what the block loop returns (lemma \<open>applyBlocks_returns\<close>).
\<close>

definition withBlocks :: "coord list \<Rightarrow> state \<Rightarrow> state" where
  "withBlocks bs st =
     foldl (\<lambda>s (x, y, z). if inBounds s x y z then upd s x y z (\<lambda>ce. ce\<lparr>block := True\<rparr>) else s)
       st bs"

text \<open>The state a load ends in (lemma \<open>load_returns\<close>: every load returns it).\<close>

definition loadedState :: "caseTable \<Rightarrow> puzzle_json \<Rightarrow> state" where
  "loadedState tbl js =
     loadAfterBlocks tbl js (withBlocks (js_blocks js) (emptyWorld (js_nx js) (js_ny js) (js_nz js)))"

text \<open>The world has the shape its dimensions announce.\<close>

definition wellShaped :: "state \<Rightarrow> bool" where
  "wellShaped st \<longleftrightarrow>
     length (world st) = NZ st \<and>
     (\<forall>k < NZ st. length (world st ! k) = NY st \<and>
        (\<forall>j < NY st. length (world st ! k ! j) = NX st))"

text \<open>
  \<open>keeps g s t\<close>: \<open>t\<close> has the dimensions of \<open>s\<close>, is well shaped, and every
  cell of \<open>t\<close> agrees with the cell of \<open>s\<close> on the projection \<open>g\<close>.
\<close>

definition keeps :: "(cell \<Rightarrow> 'a) \<Rightarrow> state \<Rightarrow> state \<Rightarrow> bool" where
  "keeps g s t \<longleftrightarrow>
     NX t = NX s \<and> NY t = NY s \<and> NZ t = NZ s \<and> wellShaped t \<and>
     (\<forall>x y z. inBounds s x y z \<longrightarrow> g (cell t x y z) = g (cell s x y z))"

definition ignoresNumbers :: "(cell \<Rightarrow> 'a) \<Rightarrow> bool" where
  "ignoresNumbers g \<longleftrightarrow> (\<forall>ce a b c. g (ce\<lparr>numR := a, numD := b, numI := c\<rparr>) = g ce)
     \<and> (\<forall>ce a. g (ce\<lparr>numR := a\<rparr>) = g ce) \<and> (\<forall>ce a. g (ce\<lparr>numD := a\<rparr>) = g ce)
     \<and> (\<forall>ce a. g (ce\<lparr>numI := a\<rparr>) = g ce)"

definition declaredRange :: "puzzle_json \<Rightarrow> coord \<Rightarrow> bool" where
  "declaredRange js p =
     (case p of (x, y, z) \<Rightarrow>
        0 \<le> x \<and> x < int (js_nx js) \<and> 0 \<le> y \<and> y < int (js_ny js) \<and> 0 \<le> z \<and> z < int (js_nz js))"

definition openAt :: "state \<Rightarrow> coord \<Rightarrow> bool" where
  "openAt st p = (case p of (x, y, z) \<Rightarrow> inBounds st x y z \<and> \<not> block (cell st x y z))"

definition fwdCell :: "dir \<Rightarrow> coord \<Rightarrow> coord" where
  "fwdCell d p = (case p of (x, y, z) \<Rightarrow> (x + dx d, y + dy d, z + dz d))"

definition backCell :: "dir \<Rightarrow> coord \<Rightarrow> coord" where
  "backCell d p = (case p of (x, y, z) \<Rightarrow> (x - dx d, y - dy d, z - dz d))"

text \<open>
  The word-start condition in the words of the specification: the cell is open, the
  cell before it in the direction is off-grid or blocked, and the cell after it is
  on-grid and open.
\<close>

definition wordStartSpec :: "state \<Rightarrow> dir \<Rightarrow> coord \<Rightarrow> bool" where
  "wordStartSpec st d p \<longleftrightarrow> openAt st p \<and> \<not> openAt st (backCell d p) \<and> openAt st (fwdCell d p)"

definition cluesOf :: "dir \<Rightarrow> clue list \<times> clue list \<times> clue list \<Rightarrow> clue list" where
  "cluesOf d t = (case t of (rs, ds, is) \<Rightarrow>
     (case d of DirR \<Rightarrow> rs | DirD \<Rightarrow> ds | DirI \<Rightarrow> is))"

definition startsIn :: "state \<Rightarrow> dir \<Rightarrow> coord \<Rightarrow> bool" where
  "startsIn st d p = (case p of (x, y, z) \<Rightarrow>
     \<not> block (cell st x y z) \<and>
     (case d of DirR \<Rightarrow> startsR st x y z | DirD \<Rightarrow> startsD st x y z | DirI \<Rightarrow> startsI st x y z))"

definition exampleGrid :: state where
  "exampleGrid = withBlocks [(1, 1, 0)] (emptyWorld 3 2 1)"

text \<open>A record that declares its dimensions and nothing else.\<close>

definition dimsOnly :: "nat \<Rightarrow> nat \<Rightarrow> nat \<Rightarrow> puzzle_json" where
  "dimsOnly nx ny nz =
     \<lparr>js_nx = nx, js_ny = ny, js_nz = nz, js_blocks = [], js_words = [], js_solution = [],
      js_cluesR = [], js_cluesD = [], js_cluesI = []\<rparr>"

definition lettersOf :: "cell \<Rightarrow> bool \<times> string \<times> string" where
  "lettersOf ce = (block ce, sol ce, ch ce)"

text \<open>
  The reading the specification describes for \<open>bindAnswer\<close>: start at the clue's
  start cell, take the solution letter of the cell (the placeholder if it has none),
  step once in the clue's direction, and do so \<open>k\<close> times.
\<close>

primrec bindAnswerSpec :: "state \<Rightarrow> coord \<Rightarrow> dir \<Rightarrow> nat \<Rightarrow> string" where
  "bindAnswerSpec st p d 0 = []"
| "bindAnswerSpec st p d (Suc k) =
     (case p of (x, y, z) \<Rightarrow> solOrPlaceholder (cell st x y z)) @ bindAnswerSpec st (fwdCell d p) d k"

text \<open>The number of open cells from \<open>p\<close> on, up to the first blocked or off-grid cell.\<close>

definition runLength :: "state \<Rightarrow> coord \<Rightarrow> dir \<Rightarrow> nat" where
  "runLength st p d = (case p of (x, y, z) \<Rightarrow> wordLen st x y z d)"

text \<open>
  A Format A record with the word \<open>AB\<close> in an open row of three cells, and the
  state it loads into (the answer is ASCII, so the case table plays no part).
\<close>

definition exampleRow :: puzzle_json where
  "exampleRow =
     \<lparr>js_nx = 3, js_ny = 1, js_nz = 1, js_blocks = [],
      js_words = [\<lparr>w_dir = DirR, w_start = (0, 0, 0), w_answer = Some ''AB'', w_clue = None\<rparr>],
      js_solution = [], js_cluesR = [], js_cluesD = [], js_cluesI = []\<rparr>"

definition exampleLoaded :: state where
  "exampleLoaded = loadedState (\<lambda>c. [c]) exampleRow"

text \<open>The (start coordinate, sequence number) pairs of a collection of clues.\<close>

definition startNumbers :: "clue set \<Rightarrow> (coord \<times> int) set" where
  "startNumbers cs = (\<lambda>c. (clue_start c, clue_n c)) ` cs"

definition stateClues :: "state \<Rightarrow> clue set" where
  "stateClues st = set (cluesR st) \<union> set (cluesD st) \<union> set (cluesI st)"

definition tripleClues :: "clue list \<times> clue list \<times> clue list \<Rightarrow> clue set" where
  "tripleClues t = (case t of (rs, ds, is) \<Rightarrow> set rs \<union> set ds \<union> set is)"

text \<open>
  Numbering keyed by the start coordinate: the same start has the same number, and
  different starts have different numbers.
\<close>

definition startKeyed :: "(coord \<times> int) set \<Rightarrow> bool" where
  "startKeyed S \<longleftrightarrow>
     (\<forall>p1 n1 p2 n2. (p1, n1) \<in> S \<and> (p2, n2) \<in> S \<longrightarrow> ((p1 = p2) \<longleftrightarrow> (n1 = n2)))"

text \<open>The invariant of the loop over \<open>js.words\<close> that builds the clues.\<close>

definition numberMapOK :: "(string \<Rightarrow> int option) \<Rightarrow> int \<Rightarrow> state \<Rightarrow> bool" where
  "numberMapOK m nextN st \<longleftrightarrow>
     1 \<le> nextN \<and>
     (\<forall>key k. m key = Some k \<longrightarrow> 1 \<le> k \<and> k < nextN) \<and>
     (\<forall>k1 k2 v. m k1 = Some v \<and> m k2 = Some v \<longrightarrow> k1 = k2) \<and>
     (\<forall>c \<in> stateClues st. m (startKey (clue_start c)) = Some (clue_n c))"

definition exampleWords :: puzzle_json where
  "exampleWords =
     \<lparr>js_nx = 3, js_ny = 3, js_nz = 1, js_blocks = [],
      js_words = [\<lparr>w_dir = DirR, w_start = (0, 0, 0), w_answer = Some ''CAT'', w_clue = None\<rparr>,
                  \<lparr>w_dir = DirD, w_start = (2, 0, 0), w_answer = Some ''TEA'', w_clue = None\<rparr>,
                  \<lparr>w_dir = DirD, w_start = (0, 0, 0), w_answer = Some ''COW'', w_clue = None\<rparr>],
      js_solution = [], js_cluesR = [], js_cluesD = [], js_cluesI = []\<rparr>"

text \<open>The loop condition and the loop body of \<open>generateConnectedBlocks\<close>, taken apart.\<close>

definition genCond :: "config \<Rightarrow> int \<Rightarrow> state \<times> nat \<times> nat \<Rightarrow> bool" where
  "genCond cfg targetBlocks s =
     (case s of (st, blocks, tries) \<Rightarrow> int blocks < targetBlocks \<and> tries < maxTries cfg)"

definition placementOK :: "config \<Rightarrow> state \<Rightarrow> int \<Rightarrow> int \<Rightarrow> int \<Rightarrow> bool" where
  "placementOK cfg st x y z \<longleftrightarrow>
     sliceOpenCountXY st z \<ge> minOpenPerSlice cfg \<and>
     sliceOpenCountXZ st y \<ge> minOpenPerSlice cfg \<and>
     sliceOpenCountYZ st x \<ge> minOpenPerSlice cfg \<and>
     allSlicesConnected st"

definition genStep :: "config \<Rightarrow> (nat \<Rightarrow> rat) \<Rightarrow> state \<times> nat \<times> nat \<Rightarrow> state \<times> nat \<times> nat" where
  "genStep cfg rnd s =
     (case s of (st, blocks, tries) \<Rightarrow>
        let x = randomIndex (rnd (3 * tries)) (NX st);
            y = randomIndex (rnd (3 * tries + 1)) (NY st);
            z = randomIndex (rnd (3 * tries + 2)) (NZ st)
        in if block (cell st x y z) then (st, blocks, tries + 1)
           else
             let st' = upd st x y z (\<lambda>ce. ce\<lparr>block := True\<rparr>) in
             if placementOK cfg st' x y z then (st', blocks + 1, tries + 1)
             else (upd st' x y z (\<lambda>ce. ce\<lparr>block := False\<rparr>), blocks, tries + 1))"

text \<open>
  The blocked cells in scan order, as \<open>generatePuzzleJSON\<close> lists them after the
  placement loop, and their number.
\<close>

definition blockedCells :: "state \<Rightarrow> coord list" where
  "blockedCells st = filter (\<lambda>(x, y, z). block (cell st x y z)) (allCells st)"

definition blockedCount :: "state \<Rightarrow> nat" where
  "blockedCount st = length (blockedCells st)"

definition targetBlocksOf :: "config \<Rightarrow> int" where
  "targetBlocksOf cfg = \<lfloor>of_nat (GEN_NX cfg * GEN_NY cfg * GEN_NZ cfg) * targetBlockFrac cfg\<rfloor>"

definition exampleConfig :: config where
  "exampleConfig = \<lparr>GEN_NX = 3, GEN_NY = 3, GEN_NZ = 1, targetBlockFrac = 1 / 2,
                     minOpenPerSlice = 1, maxTries = 6\<rparr>"

definition exampleRandom :: "nat \<Rightarrow> rat" where
  "exampleRandom i = of_nat ((i * 5) mod 7) / 7"

text \<open>
  What the specification says of a result of the loop: the number of blocked cells of the
  final world is the final value of \<open>blocks\<close>, it is at most the target, the loop
  made at most \<open>maxTries\<close> attempts, and the count is the target whenever the
  attempts stayed below the cap.
\<close>

definition countsOK :: "config \<Rightarrow> state \<times> nat \<times> nat \<Rightarrow> bool" where
  "countsOK cfg r =
     (case r of (st, blocks, tries) \<Rightarrow>
        blockedCount st = blocks \<and> int blocks \<le> targetBlocksOf cfg
        \<and> tries \<le> maxTries cfg \<and> (tries < maxTries cfg \<longrightarrow> int blocks = targetBlocksOf cfg))"

text \<open>The open cells of a slice of width \<open>U\<close> and height \<open>V\<close>.\<close>

definition sliceOpen :: "nat \<Rightarrow> nat \<Rightarrow> (int \<Rightarrow> int \<Rightarrow> bool) \<Rightarrow> (int \<times> int) set" where
  "sliceOpen U V blk = {(u, v). 0 \<le> u \<and> u < int U \<and> 0 \<le> v \<and> v < int V \<and> \<not> blk u v}"

text \<open>Two cells of a slice are adjacent when they differ by one unit step along one axis.\<close>

definition adj4 :: "int \<times> int \<Rightarrow> int \<times> int \<Rightarrow> bool" where
  "adj4 a b \<longleftrightarrow> \<bar>fst a - fst b\<bar> + \<bar>snd a - snd b\<bar> = 1"

definition stepRel :: "(int \<times> int) set \<Rightarrow> ((int \<times> int) \<times> (int \<times> int)) set" where
  "stepRel S = {(a, b). a \<in> S \<and> b \<in> S \<and> adj4 a b}"

text \<open>
  A set of cells is a single 4-connected component: it is not empty and any two of
  its cells are joined by a path of adjacent cells inside the set.
\<close>

definition connected4 :: "(int \<times> int) set \<Rightarrow> bool" where
  "connected4 S \<longleftrightarrow> S \<noteq> {} \<and> (\<forall>a \<in> S. \<forall>b \<in> S. (a, b) \<in> (stepRel S)\<^sup>*)"

definition cellIndex :: "nat \<Rightarrow> int \<times> int \<Rightarrow> nat" where
  "cellIndex U c = nat (snd c * int U + fst c)"

text \<open>The open cells that are joined to \<open>s\<close> by a path of adjacent open cells.\<close>

definition reachable :: "nat \<Rightarrow> nat \<Rightarrow> (int \<Rightarrow> int \<Rightarrow> bool) \<Rightarrow> int \<times> int \<Rightarrow> (int \<times> int) set" where
  "reachable U V blk s =
     {a \<in> sliceOpen U V blk. (s, a) \<in> (stepRel (sliceOpen U V blk))\<^sup>*}"

definition floodInv :: "nat \<Rightarrow> nat \<Rightarrow> (int \<Rightarrow> int \<Rightarrow> bool) \<Rightarrow> int \<times> int
                          \<Rightarrow> nat set \<times> nat \<times> (int \<times> int) list \<Rightarrow> bool" where
  "floodInv U V blk s t =
     (case t of (vis, seen, stack) \<Rightarrow>
        finite vis \<and> seen = card vis \<and> vis \<subseteq> cellIndex U ` reachable U V blk s
        \<and> set stack \<subseteq> reachable U V blk s)"

definition singleComponentXY :: "state \<Rightarrow> int \<Rightarrow> bool" where
  "singleComponentXY st z = connected4 (sliceOpen (NX st) (NY st) (\<lambda>x y. block (cell st x y z)))"

definition singleComponentXZ :: "state \<Rightarrow> int \<Rightarrow> bool" where
  "singleComponentXZ st y = connected4 (sliceOpen (NX st) (NZ st) (\<lambda>x z. block (cell st x y z)))"

definition singleComponentYZ :: "state \<Rightarrow> int \<Rightarrow> bool" where
  "singleComponentYZ st x = connected4 (sliceOpen (NY st) (NZ st) (\<lambda>y z. block (cell st x y z)))"

text \<open>
  Every slice of each of the three families has at least \<open>m\<close> open cells and its
  open cells are a single 4-connected component.
\<close>

definition slicesOK :: "nat \<Rightarrow> state \<Rightarrow> bool" where
  "slicesOK m st \<longleftrightarrow>
     (\<forall>z. 0 \<le> z \<and> z < int (NZ st) \<longrightarrow> m \<le> sliceOpenCountXY st z \<and> singleComponentXY st z) \<and>
     (\<forall>y. 0 \<le> y \<and> y < int (NY st) \<longrightarrow> m \<le> sliceOpenCountXZ st y \<and> singleComponentXZ st y) \<and>
     (\<forall>x. 0 \<le> x \<and> x < int (NX st) \<longrightarrow> m \<le> sliceOpenCountYZ st x \<and> singleComponentYZ st x)"

text \<open>
  The all-open world of the configured dimensions has cells, and each of its slices
  has at least \<open>minOpenPerSlice\<close> of them.
\<close>

definition startMeetsMinimum :: "config \<Rightarrow> bool" where
  "startMeetsMinimum cfg \<longleftrightarrow>
     0 < GEN_NX cfg \<and> 0 < GEN_NY cfg \<and> 0 < GEN_NZ cfg \<and>
     minOpenPerSlice cfg \<le> GEN_NX cfg * GEN_NY cfg \<and>
     minOpenPerSlice cfg \<le> GEN_NX cfg * GEN_NZ cfg \<and>
     minOpenPerSlice cfg \<le> GEN_NY cfg * GEN_NZ cfg"

definition cellAt :: "state \<Rightarrow> coord \<Rightarrow> cell" where
  "cellAt st p = (case p of (x, y, z) \<Rightarrow> cell st x y z)"

text \<open>The \<open>i\<close>-th cell of the walk that starts at \<open>p\<close> and steps in direction \<open>d\<close>.\<close>

definition runCell :: "dir \<Rightarrow> coord \<Rightarrow> nat \<Rightarrow> coord" where
  "runCell d p i = (case p of (x, y, z) \<Rightarrow> (x + int i * dx d, y + int i * dy d, z + int i * dz d))"

text \<open>
  The crossing conflicts that writing the letters \<open>cs\<close> from \<open>p\<close> on reports, read
  off the letters the cells hold before the word is written.
\<close>

fun conflictsOf :: "state \<Rightarrow> word \<Rightarrow> string \<Rightarrow> coord \<Rightarrow> diag list" where
  "conflictsOf st w [] p = []"
| "conflictsOf st w (c # cs) p =
     (if sol (cellAt st p) \<noteq> [] \<and> sol (cellAt st p) \<noteq> [c]
      then [CrossingConflict w p (sol (cellAt st p)) [c]] else [])
     @ conflictsOf st w cs (fwdCell (w_dir w) p)"

definition wordLetters :: "caseTable \<Rightarrow> word \<Rightarrow> string" where
  "wordLetters tbl w = toUpperCase tbl (answerOf w)"

definition wordCell :: "word \<Rightarrow> nat \<Rightarrow> coord" where
  "wordCell w i = runCell (w_dir w) (w_start w) i"

text \<open>A cell is free in a record when it lies inside the declared dimensions and is not listed as a block.\<close>

definition freeCell :: "puzzle_json \<Rightarrow> coord \<Rightarrow> bool" where
  "freeCell js p \<longleftrightarrow> declaredRange js p \<and> p \<notin> set (js_blocks js)"

text \<open>
  The number of letters of a word in front of the first cell of its walk that is
  not free: all of them when the whole walk is free. These are the letters that the
  loop over the answer writes before a \<open>break\<close> ends it.
\<close>

definition reach :: "caseTable \<Rightarrow> puzzle_json \<Rightarrow> word \<Rightarrow> nat" where
  "reach tbl js w =
     length (takeWhile (\<lambda>i. freeCell js (wordCell w i)) [0..<length (wordLetters tbl w)])"

text \<open>
  The diagnostic of the cell that stops the loop over the letters of a word: the
  cell is inside the grid and blocked, or it is outside the grid.
\<close>

definition stopAt :: "state \<Rightarrow> word \<Rightarrow> coord \<Rightarrow> diag" where
  "stopAt st w p =
     (case p of (x, y, z) \<Rightarrow> if inBounds st x y z then WordHitsBlock w p else WordOutOfBounds w p)"

text \<open>
  The diagnostic that ends the loop over the answer of a word early: none when the
  whole walk is free, otherwise the one for the first cell that is not.
\<close>

definition stopDiag :: "caseTable \<Rightarrow> puzzle_json \<Rightarrow> word \<Rightarrow> diag list" where
  "stopDiag tbl js w =
     (if reach tbl js w < length (wordLetters tbl w)
      then [if declaredRange js (wordCell w (reach tbl js w))
            then WordHitsBlock w (wordCell w (reach tbl js w))
            else WordOutOfBounds w (wordCell w (reach tbl js w))]
      else [])"

definition isCrossingConflict :: "diag \<Rightarrow> bool" where
  "isCrossingConflict e = (case e of CrossingConflict w p had wants \<Rightarrow> True | _ \<Rightarrow> False)"

text \<open>
  The written parts of two words share exactly one cell: the \<open>i1\<close>-th cell of the
  first is the \<open>i2\<close>-th cell of the second, both are written, and no other pair of
  written cells of the two words coincides.
\<close>

definition crossOnceAt :: "caseTable \<Rightarrow> puzzle_json \<Rightarrow> word \<Rightarrow> word \<Rightarrow> nat \<Rightarrow> nat \<Rightarrow> bool" where
  "crossOnceAt tbl js w1 w2 i1 i2 \<longleftrightarrow>
     i1 < reach tbl js w1 \<and> i2 < reach tbl js w2 \<and>
     wordCell w1 i1 = wordCell w2 i2 \<and>
     list_all (\<lambda>i. list_all (\<lambda>j. wordCell w1 i = wordCell w2 j \<longrightarrow> i = i1 \<and> j = i2)
                          [0..<reach tbl js w2])
       [0..<reach tbl js w1]"

text \<open>Two words agree: on every cell that both write they put the same letter.\<close>

definition agreeOn :: "caseTable \<Rightarrow> puzzle_json \<Rightarrow> word \<Rightarrow> word \<Rightarrow> bool" where
  "agreeOn tbl js v w \<longleftrightarrow>
     list_all (\<lambda>i. list_all (\<lambda>j. wordCell v i = wordCell w j \<longrightarrow>
                                   wordLetters tbl v ! i = wordLetters tbl w ! j)
                          [0..<reach tbl js w])
       [0..<reach tbl js v]"

text \<open>
  Apart from the \<open>a\<close>-th and the \<open>b\<close>-th word, every two words of the record
  agree.
\<close>

definition othersAgree :: "caseTable \<Rightarrow> puzzle_json \<Rightarrow> nat \<Rightarrow> nat \<Rightarrow> bool" where
  "othersAgree tbl js a b \<longleftrightarrow>
     list_all (\<lambda>l. list_all (\<lambda>k. (k = a \<and> l = b) \<or> agreeOn tbl js (js_words js ! k) (js_words js ! l))
                          [0..<l])
       [0..<length (js_words js)]"

text \<open>
  The diagnostics of the \<open>k\<close>-th word of a record in which the \<open>b\<close>-th word runs
  into the conflict \<open>e\<close>: the conflict, if this is the word, and then the
  diagnostic that stopped the word, if it was stopped.
\<close>

definition wordDiags :: "caseTable \<Rightarrow> puzzle_json \<Rightarrow> nat \<Rightarrow> diag \<Rightarrow> nat \<Rightarrow> diag list" where
  "wordDiags tbl js b e k = (if k = b then [e] else []) @ stopDiag tbl js (js_words js ! k)"

text \<open>The world on which step 1 of Format A starts, and the result of its loop over a word list.\<close>

definition gridAfterBlocks :: "puzzle_json \<Rightarrow> state" where
  "gridAfterBlocks js =
     clearNumbers ((withBlocks (js_blocks js) (emptyWorld (js_nx js) (js_ny js) (js_nz js)))
                     \<lparr>cluesR := [], cluesD := [], cluesI := []\<rparr>)"

definition lettersPass :: "caseTable \<Rightarrow> puzzle_json \<Rightarrow> word list \<Rightarrow> state" where
  "lettersPass tbl js ws = foldl (writeWord tbl) (gridAfterBlocks js) ws"

text \<open>
  The invariant of the loop over the words, after \<open>k\<close> of them: the block pattern
  is that of the start, every written cell of a word processed so far holds that
  word's letter (the shared cell holds the letter of the \<open>b\<close>-th word once that
  word is processed), a free cell that no processed word wrote is empty, and the
  diagnostics are those of the processed words, in order.
\<close>

definition lettersInv :: "caseTable \<Rightarrow> puzzle_json \<Rightarrow> nat \<Rightarrow> nat \<Rightarrow> nat \<Rightarrow> diag \<Rightarrow> nat \<Rightarrow> state \<Rightarrow> bool"
  where
  "lettersInv tbl js a b i2 e k s \<longleftrightarrow>
     keeps block (gridAfterBlocks js) s \<and>
     (\<forall>j < k. \<forall>i < reach tbl js (js_words js ! j).
         sol (cellAt s (wordCell (js_words js ! j) i))
           = (if wordCell (js_words js ! j) i = wordCell (js_words js ! b) i2 \<and> b < k
              then [wordLetters tbl (js_words js ! b) ! i2]
              else [wordLetters tbl (js_words js ! j) ! i])) \<and>
     (\<forall>p. freeCell js p \<and> (\<forall>j < k. \<forall>i < reach tbl js (js_words js ! j). p \<noteq> wordCell (js_words js ! j) i)
         \<longrightarrow> sol (cellAt s p) = []) \<and>
     errlog s = concat (map (wordDiags tbl js b e) [0..<k])"

definition clueCount :: "state \<Rightarrow> nat" where
  "clueCount st = length (cluesR st) + length (cluesD st) + length (cluesI st)"

text \<open>
  The entries of the case table for the letters of the sketch's alphabet outside
  ASCII that Latin-1 holds (a and o with diaeresis, o with tilde, u with diaeresis)
  and for the sharp s; the identity elsewhere.
\<close>

definition exampleTable :: caseTable where
  "exampleTable c =
     (if of_char c = (228::nat) then [char_of (196::nat)]
      else if of_char c = (246::nat) then [char_of (214::nat)]
      else if of_char c = (245::nat) then [char_of (213::nat)]
      else if of_char c = (252::nat) then [char_of (220::nat)]
      else if of_char c = (223::nat) then ''SS''
      else [c])"

text \<open>
  A record of five words on a 3 x 3 x 1 grid with the cell \<open>(0, 2, 0)\<close> blocked.
  The third word, an o with tilde and an \<open>x\<close> downward from \<open>(1, 0, 0)\<close>, meets the
  \<open>A\<close> of the first word, \<open>cat\<close>; every other pair of words agrees where it
  meets; the last word runs into the block after two letters.
\<close>

definition exampleCrossing :: puzzle_json where
  "exampleCrossing =
     \<lparr>js_nx = 3, js_ny = 3, js_nz = 1, js_blocks = [(0, 2, 0)],
      js_words = [\<lparr>w_dir = DirR, w_start = (0, 0, 0), w_answer = Some ''cat'', w_clue = None\<rparr>,
                  \<lparr>w_dir = DirD, w_start = (2, 0, 0), w_answer = Some ''to'', w_clue = None\<rparr>,
                  \<lparr>w_dir = DirD, w_start = (1, 0, 0),
                    w_answer = Some [char_of (245::nat), CHR ''x''], w_clue = None\<rparr>,
                  \<lparr>w_dir = DirR, w_start = (0, 1, 0), w_answer = Some ''axo'', w_clue = None\<rparr>,
                  \<lparr>w_dir = DirD, w_start = (0, 0, 0), w_answer = Some ''cab'', w_clue = None\<rparr>],
      js_solution = [], js_cluesR = [], js_cluesD = [], js_cluesI = []\<rparr>"

text \<open>
  The crossing in the words of the specification: the runs of the two words, taken
  over all the letters of their answers, share exactly one cell, the \<open>i1\<close>-th of
  the first and the \<open>i2\<close>-th of the second, and that cell is inside the grid and
  open.
\<close>

definition runsCrossOnceAt :: "caseTable \<Rightarrow> puzzle_json \<Rightarrow> word \<Rightarrow> word \<Rightarrow> nat \<Rightarrow> nat \<Rightarrow> bool" where
  "runsCrossOnceAt tbl js w1 w2 i1 i2 \<longleftrightarrow>
     i1 < length (wordLetters tbl w1) \<and> i2 < length (wordLetters tbl w2) \<and>
     wordCell w1 i1 = wordCell w2 i2 \<and> freeCell js (wordCell w1 i1) \<and>
     list_all (\<lambda>i. list_all (\<lambda>j. wordCell w1 i = wordCell w2 j \<longrightarrow> i = i1 \<and> j = i2)
                          [0..<length (wordLetters tbl w2)])
       [0..<length (wordLetters tbl w1)]"

text \<open>
  Two words on a 3 x 2 x 1 grid whose runs cross at the open cell \<open>(2, 0, 0)\<close>
  with \<open>T\<close> against \<open>O\<close>; the first word meets the block at \<open>(1, 0, 0)\<close>
  before it gets there.
\<close>

definition exampleStopped :: puzzle_json where
  "exampleStopped =
     \<lparr>js_nx = 3, js_ny = 2, js_nz = 1, js_blocks = [(1, 0, 0)],
      js_words = [\<lparr>w_dir = DirR, w_start = (0, 0, 0), w_answer = Some ''CAT'', w_clue = None\<rparr>,
                  \<lparr>w_dir = DirD, w_start = (2, 0, 0), w_answer = Some ''OX'', w_clue = None\<rparr>],
      js_solution = [], js_cluesR = [], js_cluesD = [], js_cluesI = []\<rparr>"

text \<open>
  Three words on an open 3 x 3 x 1 grid: the second crosses the first at
  \<open>(1, 0, 0)\<close> with \<open>O\<close> against \<open>A\<close>, and the third crosses the first at
  \<open>(2, 0, 0)\<close> with \<open>S\<close> against \<open>T\<close>.
\<close>

definition exampleTwoConflicts :: puzzle_json where
  "exampleTwoConflicts =
     \<lparr>js_nx = 3, js_ny = 3, js_nz = 1, js_blocks = [],
      js_words = [\<lparr>w_dir = DirR, w_start = (0, 0, 0), w_answer = Some ''CAT'', w_clue = None\<rparr>,
                  \<lparr>w_dir = DirD, w_start = (1, 0, 0), w_answer = Some ''OX'', w_clue = None\<rparr>,
                  \<lparr>w_dir = DirD, w_start = (2, 0, 0), w_answer = Some ''SO'', w_clue = None\<rparr>],
      js_solution = [], js_cluesR = [], js_cluesD = [], js_cluesI = []\<rparr>"

text \<open>
  Two words that start at \<open>(0, 0, 0)\<close> of a 2 x 2 x 1 grid: an o with tilde and an
  \<open>e\<close> rightward, and a capital O with tilde (code unit 213) and an \<open>O\<close>
  downward.
\<close>

definition exampleTilde :: puzzle_json where
  "exampleTilde =
     \<lparr>js_nx = 2, js_ny = 2, js_nz = 1, js_blocks = [],
      js_words = [\<lparr>w_dir = DirR, w_start = (0, 0, 0),
                    w_answer = Some [char_of (245::nat), CHR ''e''], w_clue = None\<rparr>,
                  \<lparr>w_dir = DirD, w_start = (0, 0, 0),
                    w_answer = Some [char_of (213::nat), CHR ''O''], w_clue = None\<rparr>],
      js_solution = [], js_cluesR = [], js_cluesD = [], js_cluesI = []\<rparr>"

section \<open>Basic facts about the world\<close>

lemma upd_fields [simp]:
  "NX (upd st x y z f) = NX st" "NY (upd st x y z f) = NY st" "NZ (upd st x y z f) = NZ st"
  "cluesR (upd st x y z f) = cluesR st" "cluesD (upd st x y z f) = cluesD st"
  "cluesI (upd st x y z f) = cluesI st" "errlog (upd st x y z f) = errlog st"
  by (simp_all add: upd_def)

lemma inBounds_upd [simp]: "inBounds (upd st x y z f) a b c = inBounds st a b c"
  by (simp add: inBounds_def)

lemma nth_list_update_total:
  "(xs[i := v]) ! j = (if i = j \<and> j < length xs then v else xs ! j)"
  by (cases "i < length xs") (auto simp: nth_list_update list_update_beyond)

lemma wellShaped_upd [simp]:
  assumes "wellShaped st"
  shows "wellShaped (upd st x y z f)"
proof -
  have len: "length (world st) = NZ st"
    and planes: "\<And>k. k < NZ st \<Longrightarrow> length (world st ! k) = NY st"
    and rows: "\<And>k j. k < NZ st \<Longrightarrow> j < NY st \<Longrightarrow> length (world st ! k ! j) = NX st"
    using assms unfolding wellShaped_def by auto
  show ?thesis
    unfolding wellShaped_def upd_def
    by (auto simp: nth_list_update_total len planes rows)
qed

lemma cell_upd:
  assumes "wellShaped st" "inBounds st x y z" "0 \<le> a" "0 \<le> b" "0 \<le> c"
  shows "cell (upd st x y z f) a b c = (if (a, b, c) = (x, y, z) then f (cell st x y z) else cell st a b c)"
proof -
  have z: "nat z < length (world st)" and y: "nat y < length (world st ! nat z)"
    and x: "nat x < length (world st ! nat z ! nat y)"
    using assms(1,2) unfolding wellShaped_def inBounds_def by auto
  have eqs: "(nat a = nat x) = (a = x)" "(nat b = nat y) = (b = y)" "(nat c = nat z) = (c = z)"
    using assms unfolding inBounds_def by auto
  show ?thesis
    using x y z eqs unfolding cell_def upd_def
    by (auto simp: nth_list_update)
qed

lemma cell_upd_same [simp]:
  "wellShaped st \<Longrightarrow> inBounds st x y z \<Longrightarrow> cell (upd st x y z f) x y z = f (cell st x y z)"
  by (simp add: cell_upd inBounds_def)

lemma upd_id: "f (cell st x y z) = cell st x y z \<Longrightarrow> upd st x y z f = st"
  by (simp add: upd_def cell_def)

lemma upd_upd:
  "wellShaped st \<Longrightarrow> inBounds st x y z \<Longrightarrow> upd (upd st x y z f) x y z g = upd st x y z (g \<circ> f)"
  unfolding upd_def cell_def wellShaped_def inBounds_def by (simp add: nat_less_iff)

lemma wellShaped_emptyWorld [simp]: "wellShaped (emptyWorld nx ny nz)"
  by (simp add: wellShaped_def emptyWorld_def)

lemma emptyWorld_fields [simp]:
  "NX (emptyWorld nx ny nz) = nx" "NY (emptyWorld nx ny nz) = ny" "NZ (emptyWorld nx ny nz) = nz"
  "cluesR (emptyWorld nx ny nz) = []" "cluesD (emptyWorld nx ny nz) = []"
  "cluesI (emptyWorld nx ny nz) = []" "errlog (emptyWorld nx ny nz) = []"
  by (simp_all add: emptyWorld_def)

lemma cell_emptyWorld [simp]:
  "inBounds (emptyWorld nx ny nz) x y z \<Longrightarrow> cell (emptyWorld nx ny nz) x y z = empty_cell"
  by (simp add: cell_def emptyWorld_def inBounds_def nat_less_iff)

lemma set_allCells: "set (allCells st) = {(x, y, z). inBounds st x y z}"
proof -
  have "\<And>x. 0 \<le> x \<Longrightarrow> x < int n \<Longrightarrow> x \<in> int ` {0..<n}" for n
    by (metis atLeastLessThan_iff image_eqI nat_int nat_less_iff zero_le int_nat_eq)
  then show ?thesis
    unfolding allCells_def inBounds_def by (auto simp: image_iff) 
qed

lemma distinct_allCells: "distinct (allCells st)"
proof -
  have "allCells st = map (\<lambda>(z, y, x). (int x, int y, int z))
          (List.product [0..<NZ st] (List.product [0..<NY st] [0..<NX st]))"
    unfolding allCells_def List.product_concat_map by (simp add: map_concat comp_def)
  moreover have "distinct (map (\<lambda>(z, y, x). (int x, int y, int z))
          (List.product [0..<NZ st] (List.product [0..<NY st] [0..<NX st])))"
    by (auto simp: distinct_map distinct_product inj_on_def)
  ultimately show ?thesis by simp
qed

subsection \<open>Steps that leave the block pattern alone\<close>

lemma cell_other_fields [simp]:
  "cell (st\<lparr>cluesR := a\<rparr>) = cell st" "cell (st\<lparr>cluesD := a\<rparr>) = cell st"
  "cell (st\<lparr>cluesI := a\<rparr>) = cell st" "cell (st\<lparr>errlog := e\<rparr>) = cell st"
  by (simp_all add: fun_eq_iff cell_def)

lemma inBounds_other_fields [simp]:
  "inBounds (st\<lparr>cluesR := a\<rparr>) = inBounds st" "inBounds (st\<lparr>cluesD := a\<rparr>) = inBounds st"
  "inBounds (st\<lparr>cluesI := a\<rparr>) = inBounds st" "inBounds (st\<lparr>errlog := e\<rparr>) = inBounds st"
  by (simp_all add: fun_eq_iff inBounds_def)

lemma wellShaped_other_fields [simp]:
  "wellShaped (st\<lparr>cluesR := a\<rparr>) = wellShaped st" "wellShaped (st\<lparr>cluesD := a\<rparr>) = wellShaped st"
  "wellShaped (st\<lparr>cluesI := a\<rparr>) = wellShaped st" "wellShaped (st\<lparr>errlog := e\<rparr>) = wellShaped st"
  by (simp_all add: wellShaped_def)

lemma ignoresNumbers_block [simp]: "ignoresNumbers block"
  by (simp add: ignoresNumbers_def)

lemma keeps_refl: "wellShaped s \<Longrightarrow> keeps g s s"
  by (simp add: keeps_def)

lemma keeps_trans: "keeps g s t \<Longrightarrow> keeps g t u \<Longrightarrow> keeps g s u"
  by (simp add: keeps_def inBounds_def)

lemma keeps_wellShaped: "keeps g s t \<Longrightarrow> wellShaped t"
  by (simp add: keeps_def)

lemma keeps_inBounds: "keeps g s t \<Longrightarrow> inBounds t = inBounds s"
  by (simp add: keeps_def inBounds_def fun_eq_iff)

lemma keeps_other_fields [simp]:
  "keeps g s (t\<lparr>cluesR := a\<rparr>) = keeps g s t" "keeps g s (t\<lparr>cluesD := a\<rparr>) = keeps g s t"
  "keeps g s (t\<lparr>cluesI := a\<rparr>) = keeps g s t" "keeps g s (t\<lparr>errlog := e\<rparr>) = keeps g s t"
  by (simp_all add: keeps_def)

lemma keeps_upd:
  assumes "wellShaped s" "inBounds s x y z" "g (f (cell s x y z)) = g (cell s x y z)"
  shows "keeps g s (upd s x y z f)"
  using assms by (auto simp: keeps_def cell_upd inBounds_def)

lemma keeps_foldl:
  assumes step: "\<And>s a. wellShaped s \<Longrightarrow> a \<in> set xs \<Longrightarrow> keeps g s (f s a)"
    and "wellShaped s"
  shows "keeps g s (foldl f s xs)"
  using assms
proof (induction xs arbitrary: s)
  case Nil
  then show ?case by (simp add: keeps_refl)
next
  case (Cons a xs)
  have 1: "keeps g s (f s a)" using Cons.prems by simp
  have "wellShaped (f s a)" using 1 by (rule keeps_wellShaped)
  then have 2: "keeps g (f s a) (foldl f (f s a) xs)"
    using Cons.prems(1) by (intro Cons.IH) auto
  show ?case using keeps_trans[OF 1 2] by simp
qed

lemma keeps_clearNumbers:
  assumes nf: "ignoresNumbers g" and ws: "wellShaped s"
  shows "keeps g s (clearNumbers s)"
proof -
  have "keeps g s (foldl (\<lambda>t (x, y, z). upd t x y z (\<lambda>ce. ce\<lparr>numR := 0, numD := 0, numI := 0\<rparr>))
       s xs)" if "set xs \<subseteq> set (allCells s)" for xs
    using that ws
  proof (induction xs arbitrary: s rule: rev_induct)
    case Nil
    then show ?case by (simp add: keeps_refl)
  next
    case (snoc a xs)
    obtain x y z where a: "a = (x, y, z)" by (cases a)
    let ?t = "foldl (\<lambda>t (x, y, z). upd t x y z (\<lambda>ce. ce\<lparr>numR := 0, numD := 0, numI := 0\<rparr>)) s xs"
    have 1: "keeps g s ?t" using snoc by simp
    have "inBounds s x y z" using snoc.prems a by (auto simp: set_allCells)
    then have "inBounds ?t x y z" using keeps_inBounds[OF 1] by simp
    then have 2: "keeps g ?t (upd ?t x y z (\<lambda>ce. ce\<lparr>numR := 0, numD := 0, numI := 0\<rparr>))"
      using keeps_wellShaped[OF 1] nf by (intro keeps_upd) (auto simp: ignoresNumbers_def)
    show ?case using keeps_trans[OF 1 2] by (simp add: a)
  qed
  then show ?thesis by (simp add: clearNumbers_def)
qed

lemma keeps_setNum:
  assumes nf: "ignoresNumbers g" and ws: "wellShaped s"
  shows "keeps g s (setNum kind c s)"
proof -
  obtain x y z where st: "clue_start c = (x, y, z)" by (cases "clue_start c")
  show ?thesis
  proof (cases "inBounds s x y z")
    case False
    then show ?thesis using ws by (simp add: setNum_def st keeps_refl)
  next
    case True
    then show ?thesis using ws nf unfolding setNum_def st
      by (simp del: cell.simps) (rule keeps_upd; simp add: ignoresNumbers_def)
  qed
qed

lemma keeps_applyNumbers:
  assumes nf: "ignoresNumbers g" and ws: "wellShaped s"
  shows "keeps g s (applyNumbers s)"
proof -
  have f: "keeps g t (foldl (\<lambda>s c. setNum k c s) t cs)" if "wellShaped t" for t k cs
    using that nf by (intro keeps_foldl) (auto intro: keeps_setNum)
  define s1 where "s1 = foldl (\<lambda>s c. setNum DirR c s) s (cluesR s)"
  define s2 where "s2 = foldl (\<lambda>s c. setNum DirD c s) s1 (cluesD s1)"
  have 1: "keeps g s s1" unfolding s1_def using ws by (rule f)
  have 2: "keeps g s1 s2" unfolding s2_def using keeps_wellShaped[OF 1] by (rule f)
  have 3: "keeps g s2 (foldl (\<lambda>s c. setNum DirI c s) s2 (cluesI s2))"
    using keeps_wellShaped[OF 2] by (rule f)
  have "applyNumbers s = foldl (\<lambda>s c. setNum DirI c s) s2 (cluesI s2)"
    by (simp add: applyNumbers_def s1_def s2_def Let_def)
  then show ?thesis using keeps_trans[OF keeps_trans[OF 1 2] 3] by simp
qed

lemma logErr_fields [simp]:
  "NX (logErr e st) = NX st" "NY (logErr e st) = NY st" "NZ (logErr e st) = NZ st"
  "world (logErr e st) = world st" "cell (logErr e st) = cell st"
  "inBounds (logErr e st) = inBounds st" "wellShaped (logErr e st) = wellShaped st"
  "cluesR (logErr e st) = cluesR st" "cluesD (logErr e st) = cluesD st"
  "cluesI (logErr e st) = cluesI st" "errlog (logErr e st) = errlog st @ [e]"
  by (simp_all add: logErr_def)

lemma keeps_logErr [simp]: "keeps g s (logErr e t) = keeps g s t"
  by (simp add: logErr_def)

lemma keeps_writeLetters:
  "wellShaped s \<Longrightarrow> keeps block s (writeLetters w cs x y z s)"
proof (induction cs arbitrary: x y z s)
  case Nil
  then show ?case by (simp add: keeps_refl)
next
  case (Cons c cs)
  show ?case
  proof (cases "inBounds s x y z \<and> \<not> block (cell s x y z)")
    case False
    then show ?thesis using Cons.prems by (auto simp: keeps_refl)
  next
    case True
    define s1 where "s1 = (if sol (cell s x y z) \<noteq> [] \<and> sol (cell s x y z) \<noteq> [c]
                  then logErr (CrossingConflict w (x, y, z) (sol (cell s x y z)) [c]) s else s)"
    define s2 where "s2 = upd s1 x y z (\<lambda>ce. ce\<lparr>sol := [c]\<rparr>)"
    have "keeps block s s1" using Cons.prems by (simp add: s1_def keeps_refl)
    moreover have "keeps block s1 s2" unfolding s2_def
      using True Cons.prems by (intro keeps_upd) (auto simp: s1_def)
    ultimately have 1: "keeps block s s2" by (rule keeps_trans)
    have 2: "keeps block s2 (writeLetters w cs (x + dx (w_dir w)) (y + dy (w_dir w)) (z + dz (w_dir w)) s2)"
      by (rule Cons.IH) (rule keeps_wellShaped[OF 1])
    have "writeLetters w (c # cs) x y z s
            = writeLetters w cs (x + dx (w_dir w)) (y + dy (w_dir w)) (z + dz (w_dir w)) s2"
      using True by (simp add: s1_def s2_def Let_def)
    then show ?thesis using keeps_trans[OF 1 2] by simp
  qed
qed

lemma keeps_writeWord: "wellShaped s \<Longrightarrow> keeps block s (writeWord tbl s w)"
  by (simp add: writeWord_def keeps_writeLetters split: prod.splits)

lemma pushClue_fields [simp]:
  "NX (pushClue d c st) = NX st" "NY (pushClue d c st) = NY st" "NZ (pushClue d c st) = NZ st"
  "world (pushClue d c st) = world st" "cell (pushClue d c st) = cell st"
  "inBounds (pushClue d c st) = inBounds st" "wellShaped (pushClue d c st) = wellShaped st"
  "errlog (pushClue d c st) = errlog st"
  by (cases d; simp add: pushClue_def fun_eq_iff cell_def inBounds_def wellShaped_def)+

lemma world_buildClues [simp]: "world (buildClues tbl ws m k st) = world st"
  by (induction ws arbitrary: m k st) (simp_all add: Let_def)

lemma dims_buildClues [simp]:
  "NX (buildClues tbl ws m k st) = NX st" "NY (buildClues tbl ws m k st) = NY st"
  "NZ (buildClues tbl ws m k st) = NZ st" "errlog (buildClues tbl ws m k st) = errlog st"
  by (induction ws arbitrary: m k st; simp add: Let_def)+

lemma cell_buildClues [simp]: "cell (buildClues tbl ws m k st) = cell st"
  by (simp add: cell_def fun_eq_iff)

lemma wellShaped_buildClues [simp]: "wellShaped (buildClues tbl ws m k st) = wellShaped st"
  by (simp add: wellShaped_def)

lemma keeps_applySolution: "wellShaped s \<Longrightarrow> keeps block s (applySolution ss s)"
  unfolding applySolution_def
  by (intro keeps_foldl) (auto simp: keeps_refl intro!: keeps_upd)

lemma ensureHintFields_fields [simp]:
  "NX (ensureHintFields st) = NX st" "NY (ensureHintFields st) = NY st"
  "NZ (ensureHintFields st) = NZ st" "world (ensureHintFields st) = world st"
  "cell (ensureHintFields st) = cell st" "wellShaped (ensureHintFields st) = wellShaped st"
  "inBounds (ensureHintFields st) = inBounds st"
  "errlog (ensureHintFields st) = errlog st" "cluesR (ensureHintFields st) = cluesR st"
  by (simp_all add: ensureHintFields_def)

lemma attachAnswersToClues_fields [simp]:
  "NX (attachAnswersToClues st) = NX st" "NY (attachAnswersToClues st) = NY st"
  "NZ (attachAnswersToClues st) = NZ st" "world (attachAnswersToClues st) = world st"
  "cell (attachAnswersToClues st) = cell st" "wellShaped (attachAnswersToClues st) = wellShaped st"
  "inBounds (attachAnswersToClues st) = inBounds st"
  "errlog (attachAnswersToClues st) = errlog st"
  by (simp_all add: attachAnswersToClues_def)

subsection \<open>The block pass of the loader\<close>

lemma withBlocks_Nil [simp]: "withBlocks [] st = st"
  by (simp add: withBlocks_def)

lemma withBlocks_Cons:
  "withBlocks ((x, y, z) # bs) st =
     withBlocks bs (if inBounds st x y z then upd st x y z (\<lambda>ce. ce\<lparr>block := True\<rparr>) else st)"
  by (simp add: withBlocks_def)

lemma withBlocks_filter:
  "withBlocks bs st = withBlocks (filter (\<lambda>(x, y, z). inBounds st x y z) bs) st"
proof (induction bs arbitrary: st)
  case Nil
  show ?case by simp
next
  case (Cons b bs)
  obtain x y z where b: "b = (x, y, z)" by (cases b)
  show ?case
  proof (cases "inBounds st x y z")
    case True
    let ?t = "upd st x y z (\<lambda>ce. ce\<lparr>block := True\<rparr>)"
    have "withBlocks (b # bs) st = withBlocks bs ?t" using True by (simp add: b withBlocks_Cons)
    also have "\<dots> = withBlocks (filter (\<lambda>(x, y, z). inBounds ?t x y z) bs) ?t" by (rule Cons.IH)
    also have "\<dots> = withBlocks (filter (\<lambda>(x, y, z). inBounds st x y z) (b # bs)) st"
      using True by (simp add: b withBlocks_Cons)
    finally show ?thesis .
  next
    case False
    then show ?thesis using Cons.IH[of st] by (simp add: b withBlocks_Cons)
  qed
qed

lemma withBlocks_frame_all:
  "NX (withBlocks bs st) = NX st \<and> NY (withBlocks bs st) = NY st \<and> NZ (withBlocks bs st) = NZ st
   \<and> cluesR (withBlocks bs st) = cluesR st \<and> cluesD (withBlocks bs st) = cluesD st
   \<and> cluesI (withBlocks bs st) = cluesI st \<and> errlog (withBlocks bs st) = errlog st"
proof (induction bs arbitrary: st)
  case Nil
  show ?case by simp
next
  case (Cons b bs)
  obtain x y z where b: "b = (x, y, z)" by (cases b)
  show ?case unfolding b withBlocks_Cons using Cons.IH by (simp split: if_splits)
qed

lemma withBlocks_frame:
  "NX (withBlocks bs st) = NX st" "NY (withBlocks bs st) = NY st" "NZ (withBlocks bs st) = NZ st"
  "cluesR (withBlocks bs st) = cluesR st" "cluesD (withBlocks bs st) = cluesD st"
  "cluesI (withBlocks bs st) = cluesI st" "errlog (withBlocks bs st) = errlog st"
  using withBlocks_frame_all[of bs st] by simp_all

lemma wellShaped_withBlocks: "wellShaped st \<Longrightarrow> wellShaped (withBlocks bs st)"
  by (induction bs arbitrary: st) (auto simp: withBlocks_Cons)

lemma inBounds_withBlocks [simp]: "inBounds (withBlocks bs st) = inBounds st"
  by (simp add: inBounds_def fun_eq_iff withBlocks_frame)

lemma block_withBlocks:
  assumes "wellShaped st" "inBounds st x y z"
  shows "block (cell (withBlocks bs st) x y z) \<longleftrightarrow> (x, y, z) \<in> set bs \<or> block (cell st x y z)"
  using assms
proof (induction bs arbitrary: st)
  case Nil
  show ?case by simp
next
  case (Cons b bs)
  obtain a b' c where b: "b = (a, b', c)" by (cases b)
  show ?case
  proof (cases "inBounds st a b' c")
    case True
    let ?t = "upd st a b' c (\<lambda>ce. ce\<lparr>block := True\<rparr>)"
    have "block (cell (withBlocks bs ?t) x y z) \<longleftrightarrow> (x, y, z) \<in> set bs \<or> block (cell ?t x y z)"
      using Cons.prems by (intro Cons.IH) auto
    moreover have "block (cell ?t x y z) \<longleftrightarrow> (x, y, z) = (a, b', c) \<or> block (cell st x y z)"
      using Cons.prems True by (auto simp: cell_upd inBounds_def)
    ultimately show ?thesis using True by (auto simp: b withBlocks_Cons)
  next
    case False
    then have "(x, y, z) \<noteq> (a, b', c)" using Cons.prems by auto
    then show ?thesis using False Cons.IH[OF Cons.prems] by (auto simp: b withBlocks_Cons)
  qed
qed

lemma keeps_load:
  "keeps block (withBlocks (js_blocks js) (emptyWorld (js_nx js) (js_ny js) (js_nz js)))
     (loadedState tbl js)"
proof -
  define s1 where "s1 = withBlocks (js_blocks js) (emptyWorld (js_nx js) (js_ny js) (js_nz js))"
  define s2 where "s2 = clearNumbers (s1\<lparr>cluesR := [], cluesD := [], cluesI := []\<rparr>)"
  have ws1: "wellShaped s1" unfolding s1_def by (simp add: wellShaped_withBlocks)
  have "keeps block (s1\<lparr>cluesR := [], cluesD := [], cluesI := []\<rparr>) s2"
    unfolding s2_def using ws1 by (intro keeps_clearNumbers) simp_all
  then have 12: "keeps block s1 s2" by (simp add: keeps_def)
  have ws2: "wellShaped s2" using 12 by (rule keeps_wellShaped)
  have fin: "keeps block t (attachAnswersToClues (applyNumbers t))" if "wellShaped t" for t
    using keeps_applyNumbers[OF ignoresNumbers_block that] by (simp add: keeps_def)
  have other: "keeps block s2 (t\<lparr>cluesR := a, cluesD := b, cluesI := c\<rparr>) = keeps block s2 t" for t a b c
    by simp
  show ?thesis
  proof (cases "js_words js \<noteq> []")
    case True
    define s3 where "s3 = foldl (writeWord tbl) s2 (js_words js)"
    define s4 where "s4 = buildClues tbl (js_words js) Map.empty 1 s3"
    have 23: "keeps block s2 s3" unfolding s3_def using ws2
      by (intro keeps_foldl) (auto intro: keeps_writeWord)
    have 34: "keeps block s3 s4" using keeps_wellShaped[OF 23]
      by (simp add: keeps_def s4_def)
    have ws4: "wellShaped s4" using 34 by (rule keeps_wellShaped)
    have "loadedState tbl js = attachAnswersToClues (applyNumbers s4)"
      using True by (simp add: loadedState_def loadAfterBlocks_def Let_def s1_def s2_def s3_def s4_def)
    then show ?thesis
      using keeps_trans[OF keeps_trans[OF keeps_trans[OF 12 23] 34] fin[OF ws4]]
      by (simp add: s1_def)
  next
    case False
    define s3 where "s3 = applySolution (js_solution js) s2"
    define s4 where "s4 = (if hasClues js
                      then ensureHintFields
                             (s3\<lparr>cluesR := js_cluesR js, cluesD := js_cluesD js, cluesI := js_cluesI js\<rparr>)
                      else (case computeCluesFromWorld s3 of (rs, ds, is) \<Rightarrow>
                             ensureHintFields (s3\<lparr>cluesR := rs, cluesD := ds, cluesI := is\<rparr>)))"
    have 23: "keeps block s2 s3" unfolding s3_def using ws2 by (rule keeps_applySolution)
    have 34: "keeps block s3 s4" using keeps_wellShaped[OF 23]
      by (auto simp: keeps_def s4_def split: prod.splits)
    have ws4: "wellShaped s4" using 34 by (rule keeps_wellShaped)
    have "loadedState tbl js = attachAnswersToClues (applyNumbers s4)"
      using False by (simp add: loadedState_def loadAfterBlocks_def Let_def s1_def s2_def s3_def s4_def)
    then show ?thesis
      using keeps_trans[OF keeps_trans[OF keeps_trans[OF 12 23] 34] fin[OF ws4]]
      by (simp add: s1_def)
  qed
qed

lemma load_dims [simp]:
  "NX (loadedState tbl js) = js_nx js" "NY (loadedState tbl js) = js_ny js"
  "NZ (loadedState tbl js) = js_nz js"
  using keeps_load[of js tbl] by (simp_all add: keeps_def withBlocks_frame)

lemma load_wellShaped [simp]: "wellShaped (loadedState tbl js)"
  using keeps_load[of js tbl] by (rule keeps_wellShaped)

lemma load_block:
  assumes "inBounds (loadedState tbl js) x y z"
  shows "block (cell (loadedState tbl js) x y z) \<longleftrightarrow> (x, y, z) \<in> set (js_blocks js)"
proof -
  let ?s0 = "emptyWorld (js_nx js) (js_ny js) (js_nz js)"
  have inb: "inBounds ?s0 x y z" using assms by (simp add: inBounds_def)
  have "block (cell (loadedState tbl js) x y z) = block (cell (withBlocks (js_blocks js) ?s0) x y z)"
    using keeps_load[of js tbl] inb by (simp add: keeps_def)
  also have "\<dots> \<longleftrightarrow> (x, y, z) \<in> set (js_blocks js) \<or> block (cell ?s0 x y z)"
    using inb by (intro block_withBlocks) simp_all
  finally show ?thesis using inb by (simp add: empty_cell_def)
qed

subsection \<open>The block loop never throws\<close>

lemma markBlock_inside:
  assumes "wellShaped st" "inBounds st x y z"
  shows "markBlock st x y z = Inr (upd st x y z (\<lambda>ce. ce\<lparr>block := True\<rparr>))"
proof -
  have z: "0 \<le> z" "z < int (length (world st))" "nat z < NZ st"
    using assms unfolding wellShaped_def inBounds_def by auto
  have y: "0 \<le> y" "y < int (length (world st ! nat z))" "nat y < NY st"
    using assms z(3) unfolding wellShaped_def inBounds_def by auto
  have x: "0 \<le> x" "x < int (length (world st ! nat z ! nat y))"
    using assms z(3) y(3) unfolding wellShaped_def inBounds_def by auto
  show ?thesis using x y z by (simp add: markBlock_def)
qed

lemma markBlock_outside:
  assumes "wellShaped st" "\<not> inBounds st x y z"
  shows "markBlock st x y z = Inl TypeError"
proof (cases "0 \<le> z \<and> z < int (length (world st))")
  case False
  then show ?thesis by (auto simp: markBlock_def)
next
  case z: True
  then have zn: "nat z < NZ st" using assms(1) unfolding wellShaped_def by auto
  show ?thesis
  proof (cases "0 \<le> y \<and> y < int (length (world st ! nat z))")
    case False
    then show ?thesis by (auto simp: markBlock_def)
  next
    case y: True
    then have yn: "nat y < NY st" using assms(1) zn unfolding wellShaped_def by auto
    have "length (world st ! nat z ! nat y) = NX st"
      using assms(1) zn yn unfolding wellShaped_def by auto
    moreover have "z < int (NZ st)" "y < int (NY st)" using zn yn z y by auto
    ultimately have "\<not> (0 \<le> x \<and> x < int (length (world st ! nat z ! nat y)))"
      using assms(2) z y unfolding inBounds_def by auto
    then show ?thesis by (auto simp: markBlock_def)
  qed
qed

lemma applyBlocks_returns: "wellShaped st \<Longrightarrow> applyBlocks bs st = Inr (withBlocks bs st)"
proof (induction bs arbitrary: st)
  case Nil
  show ?case by simp
next
  case (Cons b bs)
  obtain x y z where b: "b = (x, y, z)" by (cases b)
  show ?case
  proof (cases "inBounds st x y z")
    case True
    let ?t = "upd st x y z (\<lambda>ce. ce\<lparr>block := True\<rparr>)"
    have "wellShaped ?t" using Cons.prems by simp
    then have "applyBlocks bs ?t = Inr (withBlocks bs ?t)" by (rule Cons.IH)
    then show ?thesis
      using True markBlock_inside[OF Cons.prems True] by (simp add: b withBlocks_Cons)
  next
    case False
    then show ?thesis using Cons.IH[OF Cons.prems] by (simp add: b withBlocks_Cons)
  qed
qed

lemma load_returns: "loadPuzzleFromJSON tbl js = Inr (loadedState tbl js)"
  by (simp add: loadPuzzleFromJSON_def loadedState_def applyBlocks_returns)

section \<open>Properties of the loader\<close>

text \<open>
  C10. A load never throws, whatever the block list holds. The assignment to the
  cell of an entry outside the declared dimensions would throw (last conjunct), but
  the block loop tests every entry with \<open>inBounds\<close> before it indexes the grid,
  so the assignment is only reached for entries inside the dimensions, where all
  three indexings succeed: the loop returns a world, and the load returns a state.
  Entries outside the declared dimensions are skipped silently: the loop prints
  nothing and returns the world that the loop over the list without those entries
  returns, and the load returns exactly the state (world, clues and diagnostics)
  that the load of the record without them returns. The loaded world keeps the
  declared shape, and a cell inside the dimensions is blocked exactly when it is
  listed, so every in-range entry is applied.
\<close>

theorem C10_out_of_range_blocks_skipped:
  "\<exists>s1 st.
       applyBlocks (js_blocks js) (emptyWorld (js_nx js) (js_ny js) (js_nz js)) = Inr s1
     \<and> applyBlocks (filter (declaredRange js) (js_blocks js))
           (emptyWorld (js_nx js) (js_ny js) (js_nz js)) = Inr s1
     \<and> errlog s1 = []
     \<and> loadPuzzleFromJSON tbl js = Inr st
     \<and> loadPuzzleFromJSON tbl (js\<lparr>js_blocks := filter (declaredRange js) (js_blocks js)\<rparr>) = Inr st
     \<and> wellShaped st
     \<and> NX st = js_nx js \<and> NY st = js_ny js \<and> NZ st = js_nz js
     \<and> (\<forall>p \<in> set (js_blocks js). declaredRange js p \<longrightarrow>
           (case p of (x, y, z) \<Rightarrow> block (cell st x y z)))
     \<and> (\<forall>x y z. declaredRange js (x, y, z) \<and> (x, y, z) \<notin> set (js_blocks js) \<longrightarrow>
           \<not> block (cell st x y z))
     \<and> (\<forall>x y z. \<not> declaredRange js (x, y, z) \<longrightarrow>
           markBlock (emptyWorld (js_nx js) (js_ny js) (js_nz js)) x y z = Inl TypeError)"
proof -
  let ?s0 = "emptyWorld (js_nx js) (js_ny js) (js_nz js)"
  let ?js' = "js\<lparr>js_blocks := filter (declaredRange js) (js_blocks js)\<rparr>"
  have range: "declaredRange js = (\<lambda>(x, y, z). inBounds ?s0 x y z)"
    by (auto simp: declaredRange_def inBounds_def fun_eq_iff)
  have wb: "withBlocks (js_blocks js) ?s0 = withBlocks (filter (declaredRange js) (js_blocks js)) ?s0"
    unfolding range by (rule withBlocks_filter)
  have pass1: "applyBlocks (js_blocks js) ?s0 = Inr (withBlocks (js_blocks js) ?s0)"
    by (simp add: applyBlocks_returns)
  have pass2: "applyBlocks (filter (declaredRange js) (js_blocks js)) ?s0
                 = Inr (withBlocks (js_blocks js) ?s0)"
    unfolding wb by (simp add: applyBlocks_returns)
  have quiet: "errlog (withBlocks (js_blocks js) ?s0) = []"
    by (simp add: withBlocks_frame)
  have "loadedState tbl js = loadedState tbl ?js'"
    using wb by (simp add: loadedState_def loadAfterBlocks_def hasClues_def Let_def)
  then have skip: "loadPuzzleFromJSON tbl ?js' = Inr (loadedState tbl js)"
    by (simp add: load_returns)
  have inb: "inBounds (loadedState tbl js) x y z = declaredRange js (x, y, z)" for x y z
    by (simp add: inBounds_def declaredRange_def)
  have listed: "\<forall>p \<in> set (js_blocks js). declaredRange js p \<longrightarrow>
         (case p of (x, y, z) \<Rightarrow> block (cell (loadedState tbl js) x y z))"
    using load_block[of tbl js] by (auto simp: inb)
  have unlisted: "\<forall>x y z. declaredRange js (x, y, z) \<and> (x, y, z) \<notin> set (js_blocks js) \<longrightarrow>
         \<not> block (cell (loadedState tbl js) x y z)"
    using load_block[of tbl js] by (auto simp: inb)
  have throws: "\<forall>x y z. \<not> declaredRange js (x, y, z) \<longrightarrow> markBlock ?s0 x y z = Inl TypeError"
  proof (intro allI impI)
    fix x y z assume "\<not> declaredRange js (x, y, z)"
    then have "\<not> inBounds ?s0 x y z" by (simp add: range)
    then show "markBlock ?s0 x y z = Inl TypeError"
      by (intro markBlock_outside) simp_all
  qed
  show ?thesis
    by (rule exI[of _ "withBlocks (js_blocks js) ?s0"], rule exI[of _ "loadedState tbl js"])
       (intro conjI pass1 pass2 quiet load_returns skip listed unlisted throws
          load_wellShaped load_dims)
qed

theorem C10_witness:
  "loadPuzzleFromJSON exampleTable
      \<lparr>js_nx = 2, js_ny = 1, js_nz = 1, js_blocks = [(5, 0, 0), (1, 0, 0), (0, - 1, 0)],
       js_words = [], js_solution = [], js_cluesR = [], js_cluesD = [], js_cluesI = []\<rparr>
     = loadPuzzleFromJSON exampleTable
      \<lparr>js_nx = 2, js_ny = 1, js_nz = 1, js_blocks = [(1, 0, 0)],
       js_words = [], js_solution = [], js_cluesR = [], js_cluesD = [], js_cluesI = []\<rparr>
   \<and> declaredRange \<lparr>js_nx = 2, js_ny = 1, js_nz = 1, js_blocks = [(5, 0, 0), (1, 0, 0), (0, - 1, 0)],
       js_words = [], js_solution = [], js_cluesR = [], js_cluesD = [], js_cluesI = []\<rparr> (1, 0, 0)
   \<and> (case loadPuzzleFromJSON exampleTable
      \<lparr>js_nx = 2, js_ny = 1, js_nz = 1, js_blocks = [(5, 0, 0), (1, 0, 0), (0, - 1, 0)],
       js_words = [], js_solution = [], js_cluesR = [], js_cluesD = [], js_cluesI = []\<rparr> of
        Inl e \<Rightarrow> False
      | Inr st \<Rightarrow> block (cell st 1 0 0) \<and> \<not> block (cell st 0 0 0) \<and> errlog st = []
                  \<and> NX st = 2 \<and> NY st = 1 \<and> NZ st = 1)
   \<and> markBlock (emptyWorld 2 1 1) 5 0 0 = Inl TypeError
   \<and> markBlock (emptyWorld 2 1 1) 0 (- 1) 0 = Inl TypeError"
proof -
  define js where "js = \<lparr>js_nx = 2, js_ny = 1, js_nz = 1, js_blocks = [(5, 0, 0), (1, 0, 0), (0, - 1, 0)],
       js_words = [], js_solution = [], js_cluesR = [], js_cluesD = [], js_cluesI = []\<rparr>"
  have f: "js\<lparr>js_blocks := filter (declaredRange js) (js_blocks js)\<rparr>
            = \<lparr>js_nx = 2, js_ny = 1, js_nz = 1, js_blocks = [(1, 0, 0)],
       js_words = [], js_solution = [], js_cluesR = [], js_cluesD = [], js_cluesI = []\<rparr>"
    by (simp add: declaredRange_def js_def)
  have r: "declaredRange js (1, 0, 0)" "declaredRange js (0, 0, 0)"
    "(1, 0, 0) \<in> set (js_blocks js)" "(0, 0, 0) \<notin> set (js_blocks js)"
    by (simp_all add: declaredRange_def js_def)
  have d: "js_nx js = 2" "js_ny js = 1" "js_nz js = 1" by (simp_all add: js_def)
  obtain st where ld: "loadPuzzleFromJSON exampleTable js = Inr st"
    and sk: "loadPuzzleFromJSON exampleTable
               (js\<lparr>js_blocks := filter (declaredRange js) (js_blocks js)\<rparr>) = Inr st"
    and dims: "NX st = js_nx js" "NY st = js_ny js" "NZ st = js_nz js"
    and listed: "\<forall>p \<in> set (js_blocks js). declaredRange js p \<longrightarrow>
         (case p of (x, y, z) \<Rightarrow> block (cell st x y z))"
    and unlisted: "\<forall>x y z. declaredRange js (x, y, z) \<and> (x, y, z) \<notin> set (js_blocks js) \<longrightarrow>
         \<not> block (cell st x y z)"
    using C10_out_of_range_blocks_skipped[of js exampleTable] by blast
  have 1: "loadPuzzleFromJSON exampleTable js
     = loadPuzzleFromJSON exampleTable (js\<lparr>js_blocks := filter (declaredRange js) (js_blocks js)\<rparr>)"
    using ld sk by simp
  have 2: "block (cell st 1 0 0)"
    using listed r(1,3) by fastforce
  have 3: "\<not> block (cell st 0 0 0)"
    using unlisted r(2,4) by blast
  have "errlog (loadedState exampleTable js) = []" unfolding js_def by code_simp
  then have 4: "errlog st = []" using ld by (simp add: load_returns)
  have 5: "case loadPuzzleFromJSON exampleTable js of
        Inl e \<Rightarrow> False
      | Inr st \<Rightarrow> block (cell st 1 0 0) \<and> \<not> block (cell st 0 0 0) \<and> errlog st = []
                  \<and> NX st = 2 \<and> NY st = 1 \<and> NZ st = 1"
    using 2 3 4 dims d by (simp add: ld)
  have 6: "markBlock (emptyWorld 2 1 1) 5 0 0 = Inl TypeError"
    "markBlock (emptyWorld 2 1 1) 0 (- 1) 0 = Inl TypeError"
    by code_simp+
  show ?thesis
    using 1[unfolded f] 5 6 r(1) unfolding js_def by (intro conjI)
qed

text \<open>
  C4. The specification asks that, after a Format B record with explicit clues is loaded,
  no clue is left without a hint. In \<open>ensureHintFields\<close> the line that fills the
  rightward hints is commented out, so a rightward clue without a hint stays without
  one, while the downward and inward clues of the same record get their defaults.
\<close>

theorem C4_rightward_hint_not_filled:
  "case loadPuzzleFromJSON tbl
     \<lparr>js_nx = 2, js_ny = 2, js_nz = 2, js_blocks = [], js_words = [], js_solution = [],
      js_cluesR = [\<lparr>clue_n = 1, clue_start = (0, 0, 0), clue_len = 2,
                     clue_hint = None, clue_answer = None\<rparr>],
      js_cluesD = [\<lparr>clue_n = 1, clue_start = (0, 0, 0), clue_len = 2,
                     clue_hint = None, clue_answer = None\<rparr>],
      js_cluesI = [\<lparr>clue_n = 1, clue_start = (0, 0, 0), clue_len = 2,
                     clue_hint = None, clue_answer = None\<rparr>]\<rparr> of
     Inl e \<Rightarrow> False
   | Inr st \<Rightarrow>
       map clue_hint (cluesR st) = [None]
       \<and> map clue_hint (cluesD st) = [Some ''alla'']
       \<and> map clue_hint (cluesI st) = [Some ''sisse'']"
  by code_simp

text \<open>
  C2. The specification asks that a blocked cell never carries a clue number. \<open>setNum\<close>
  checks only the bounds of the start cell, not its block flag: a Format A word that
  starts on a blocked cell is reported (\<open>WORD HITS BLOCK\<close>) and writes no letter,
  but its clue is still created and its number is written onto the blocked cell.
\<close>

theorem C2_number_written_on_blocked_cell:
  "case loadPuzzleFromJSON tbl
     \<lparr>js_nx = 2, js_ny = 1, js_nz = 1, js_blocks = [(0, 0, 0)],
      js_words = [\<lparr>w_dir = DirR, w_start = (0, 0, 0), w_answer = Some ''AB'', w_clue = None\<rparr>],
      js_solution = [], js_cluesR = [], js_cluesD = [], js_cluesI = []\<rparr> of
     Inl e \<Rightarrow> False
   | Inr st \<Rightarrow>
       block (cell st 0 0 0)
       \<and> numR (cell st 0 0 0) = 1
       \<and> sol (cell st 0 0 0) = []
       \<and> errlog st
           = [WordHitsBlock \<lparr>w_dir = DirR, w_start = (0, 0, 0), w_answer = Some ''AB'', w_clue = None\<rparr>
                (0, 0, 0)]"
  by code_simp

subsection \<open>The clue scan\<close>

lemma clueStep_starts:
  "map clue_start (cluesOf d (snd (clueStep st acc p)))
     = map clue_start (cluesOf d (snd acc)) @ (if startsIn st d p then [p] else [])"
  by (cases acc rule: prod_cases4; cases p rule: prod_cases3; cases d)
     (simp_all add: cluesOf_def startsIn_def Let_def)

lemma foldl_clueStep_starts:
  "map clue_start (cluesOf d (snd (foldl (clueStep st) acc ps)))
     = map clue_start (cluesOf d (snd acc)) @ filter (startsIn st d) ps"
proof (induction ps arbitrary: acc)
  case Nil
  show ?case by simp
next
  case (Cons p ps)
  show ?case by (simp add: Cons.IH clueStep_starts del: clueStep.simps)
qed

lemma computeClues_starts:
  "map clue_start (cluesOf d (computeCluesFromWorld st)) = filter (startsIn st d) (allCells st)"
  unfolding computeCluesFromWorld_def
  by (simp add: foldl_clueStep_starts) (simp add: cluesOf_def split: dir.splits)

lemma clueStepJSON_eq: "clueStepJSON st acc p = clueStep st acc p"
  by (cases acc rule: prod_cases4; cases p rule: prod_cases3) (simp add: Let_def)

lemma computeDirectionalCluesJSON_eq: "computeDirectionalCluesJSON st = computeCluesFromWorld st"
proof -
  have "clueStepJSON st = clueStep st" by (intro ext) (rule clueStepJSON_eq)
  then show ?thesis by (simp add: computeDirectionalCluesJSON_def computeCluesFromWorld_def)
qed

lemma startsIn_spec:
  assumes "inBounds st x y z"
  shows "startsIn st d (x, y, z) \<longleftrightarrow> wordStartSpec st d (x, y, z)"
  using assms
  by (cases d)
     (auto simp: startsIn_def wordStartSpec_def openAt_def fwdCell_def backCell_def
        startsR_def startsD_def startsI_def inBounds_def)

lemma clue_starts_iff:
  "p \<in> clue_start ` set (cluesOf d (computeCluesFromWorld st)) \<longleftrightarrow> wordStartSpec st d p"
proof -
  obtain x y z where p: "p = (x, y, z)" by (cases p)
  have "p \<in> clue_start ` set (cluesOf d (computeCluesFromWorld st))
          \<longleftrightarrow> p \<in> set (map clue_start (cluesOf d (computeCluesFromWorld st)))" by simp
  also have "\<dots> \<longleftrightarrow> inBounds st x y z \<and> startsIn st d p"
    unfolding computeClues_starts by (auto simp: set_allCells p)
  also have "\<dots> \<longleftrightarrow> wordStartSpec st d p"
    using startsIn_spec[of st x y z d] by (auto simp: p wordStartSpec_def openAt_def)
  finally show ?thesis .
qed

text \<open>
  C8. In both scans (\<open>computeCluesFromWorld\<close> and \<open>computeDirectionalCluesJSON\<close>) a
  cell is the start of a clue of direction \<open>d\<close> exactly when it is open, the cell
  before it in that direction is off-grid or blocked and the cell after it is
  on-grid and open. Hence an open cell that is closed off on both sides (a run of
  one cell) is never the start of a clue of that direction.
\<close>

theorem C8_word_start_condition:
  "(p \<in> clue_start ` set (cluesOf d (computeCluesFromWorld st)) \<longleftrightarrow> wordStartSpec st d p)
   \<and> (p \<in> clue_start ` set (cluesOf d (computeDirectionalCluesJSON st)) \<longleftrightarrow> wordStartSpec st d p)
   \<and> (openAt st p \<and> \<not> openAt st (backCell d p) \<and> \<not> openAt st (fwdCell d p) \<longrightarrow>
        p \<notin> clue_start ` set (cluesOf d (computeCluesFromWorld st)) \<and>
        p \<notin> clue_start ` set (cluesOf d (computeDirectionalCluesJSON st)))"
  unfolding computeDirectionalCluesJSON_eq clue_starts_iff
  by (simp add: wordStartSpec_def)

theorem C8_witness:
  "openAt exampleGrid (1, 0, 0) \<and> openAt exampleGrid (0, 0, 0) \<and> openAt exampleGrid (0, 1, 0)
   \<and> \<not> openAt exampleGrid (backCell DirD (1, 0, 0)) \<and> \<not> openAt exampleGrid (fwdCell DirD (1, 0, 0))
   \<and> (1, 0, 0) \<notin> clue_start ` set (cluesOf DirD (computeCluesFromWorld exampleGrid))
   \<and> (1, 0, 0) \<notin> clue_start ` set (cluesOf DirD (computeDirectionalCluesJSON exampleGrid))
   \<and> (0, 0, 0) \<in> clue_start ` set (cluesOf DirD (computeCluesFromWorld exampleGrid))
   \<and> (0, 0, 0) \<in> clue_start ` set (cluesOf DirR (computeCluesFromWorld exampleGrid))
   \<and> (0, 1, 0) \<notin> clue_start ` set (cluesOf DirR (computeCluesFromWorld exampleGrid))"
proof -
  have o: "openAt exampleGrid (1, 0, 0)" "openAt exampleGrid (0, 0, 0)" "openAt exampleGrid (0, 1, 0)"
    "\<not> openAt exampleGrid (backCell DirD (1, 0, 0))" "\<not> openAt exampleGrid (fwdCell DirD (1, 0, 0))"
    by code_simp+
  have s: "wordStartSpec exampleGrid DirD (0, 0, 0)" "wordStartSpec exampleGrid DirR (0, 0, 0)"
    "\<not> wordStartSpec exampleGrid DirR (0, 1, 0)"
    by code_simp+
  show ?thesis
    using o s C8_word_start_condition[of "(1, 0, 0)" DirD exampleGrid]
      C8_word_start_condition[of "(0, 0, 0)" DirD exampleGrid]
      C8_word_start_condition[of "(0, 0, 0)" DirR exampleGrid]
      C8_word_start_condition[of "(0, 1, 0)" DirR exampleGrid]
    by blast
qed

subsection \<open>What the numbering passes leave alone\<close>

lemma foldl_unchanged:
  assumes "\<And>s a. h (f s a) = h s"
  shows "h (foldl f s xs) = h s"
  by (induction xs arbitrary: s) (simp_all add: assms)

lemma clearNumbers_fields [simp]:
  "cluesR (clearNumbers st) = cluesR st" "cluesD (clearNumbers st) = cluesD st"
  "cluesI (clearNumbers st) = cluesI st" "errlog (clearNumbers st) = errlog st"
  unfolding clearNumbers_def
  by (rule foldl_unchanged, simp split: prod.splits)+

lemma setNum_fields [simp]:
  "cluesR (setNum k c st) = cluesR st" "cluesD (setNum k c st) = cluesD st"
  "cluesI (setNum k c st) = cluesI st" "errlog (setNum k c st) = errlog st"
  by (simp_all add: setNum_def split: prod.splits)

lemma foldl_setNum_fields [simp]:
  "cluesR (foldl (\<lambda>s c. setNum k c s) st cs) = cluesR st"
  "cluesD (foldl (\<lambda>s c. setNum k c s) st cs) = cluesD st"
  "cluesI (foldl (\<lambda>s c. setNum k c s) st cs) = cluesI st"
  "errlog (foldl (\<lambda>s c. setNum k c s) st cs) = errlog st"
  by (rule foldl_unchanged, simp)+

lemma applyNumbers_fields [simp]:
  "cluesR (applyNumbers st) = cluesR st" "cluesD (applyNumbers st) = cluesD st"
  "cluesI (applyNumbers st) = cluesI st" "errlog (applyNumbers st) = errlog st"
  by (simp_all add: applyNumbers_def Let_def)

lemma applySolution_Nil [simp]: "applySolution [] st = st"
  by (simp add: applySolution_def)

lemma attach_starts [simp]:
  "map clue_start (cluesR (attachAnswersToClues st)) = map clue_start (cluesR st)"
  "map clue_start (cluesD (attachAnswersToClues st)) = map clue_start (cluesD st)"
  "map clue_start (cluesI (attachAnswersToClues st)) = map clue_start (cluesI st)"
  by (simp_all add: attachAnswersToClues_def comp_def)

lemma ensureHint_starts [simp]:
  "map clue_start (cluesD (ensureHintFields st)) = map clue_start (cluesD st)"
  "map clue_start (cluesI (ensureHintFields st)) = map clue_start (cluesI st)"
  by (simp_all add: ensureHintFields_def comp_def if_distrib cong: if_cong)

lemma ignoresNumbers_lettersOf [simp]: "ignoresNumbers lettersOf"
  by (simp add: ignoresNumbers_def lettersOf_def)

lemma load_dimsOnly:
  fixes tbl nx ny nz
  defines "s2 \<equiv> clearNumbers (emptyWorld nx ny nz)"
  shows "loadedState tbl (dimsOnly nx ny nz)
     = attachAnswersToClues (applyNumbers (ensureHintFields
         (s2\<lparr>cluesR := cluesOf DirR (computeCluesFromWorld s2),
             cluesD := cluesOf DirD (computeCluesFromWorld s2),
             cluesI := cluesOf DirI (computeCluesFromWorld s2)\<rparr>)))"
proof -
  have e: "emptyWorld nx ny nz\<lparr>cluesR := [], cluesD := [], cluesI := []\<rparr> = emptyWorld nx ny nz"
    by (simp add: emptyWorld_def)
  show ?thesis
    by (simp add: loadedState_def loadAfterBlocks_def dimsOnly_def hasClues_def Let_def e s2_def cluesOf_def
          split: prod.splits)
qed

lemma dimsOnly_cells:
  fixes tbl nx ny nz
  defines "st \<equiv> loadedState tbl (dimsOnly nx ny nz)"
  shows "keeps lettersOf (emptyWorld nx ny nz) st"
proof -
  define s2 where "s2 = clearNumbers (emptyWorld nx ny nz)"
  define s4 where "s4 = ensureHintFields
         (s2\<lparr>cluesR := cluesOf DirR (computeCluesFromWorld s2),
             cluesD := cluesOf DirD (computeCluesFromWorld s2),
             cluesI := cluesOf DirI (computeCluesFromWorld s2)\<rparr>)"
  have 1: "keeps lettersOf (emptyWorld nx ny nz) s2"
    unfolding s2_def by (intro keeps_clearNumbers) simp_all
  have 2: "keeps lettersOf s2 s4"
    using keeps_wellShaped[OF 1] by (simp add: keeps_def s4_def)
  have 3: "keeps lettersOf s4 (applyNumbers s4)"
    using keeps_wellShaped[OF 2] by (intro keeps_applyNumbers) simp_all
  have 4: "keeps lettersOf (applyNumbers s4) (attachAnswersToClues (applyNumbers s4))"
    using keeps_wellShaped[OF 3] by (simp add: keeps_def)
  have "st = attachAnswersToClues (applyNumbers s4)"
    unfolding st_def s4_def s2_def by (rule load_dimsOnly)
  then show ?thesis
    using keeps_trans[OF keeps_trans[OF keeps_trans[OF 1 2] 3] 4] by simp
qed

lemma dimsOnly_starts:
  fixes tbl nx ny nz
  defines "st \<equiv> loadedState tbl (dimsOnly nx ny nz)"
  shows "clue_start ` set (cluesR st) = {(x, y, z). inBounds st x y z \<and> x = 0 \<and> 2 \<le> nx}"
    and "clue_start ` set (cluesD st) = {(x, y, z). inBounds st x y z \<and> y = 0 \<and> 2 \<le> ny}"
    and "clue_start ` set (cluesI st) = {(x, y, z). inBounds st x y z \<and> z = 0 \<and> 2 \<le> nz}"
proof -
  define s2 where "s2 = clearNumbers (emptyWorld nx ny nz)"
  have k: "keeps lettersOf (emptyWorld nx ny nz) s2"
    unfolding s2_def by (intro keeps_clearNumbers) simp_all
  have dims: "NX s2 = nx" "NY s2 = ny" "NZ s2 = nz" using k by (simp_all add: keeps_def)
  have inb: "inBounds st = inBounds s2"
    by (simp add: fun_eq_iff inBounds_def dims st_def dimsOnly_def)
  have opn: "openAt s2 (x, y, z) = inBounds s2 x y z" for x y z
  proof (cases "inBounds s2 x y z")
    case True
    then have "inBounds (emptyWorld nx ny nz) x y z" by (simp add: inBounds_def dims)
    then have "lettersOf (cell s2 x y z) = lettersOf empty_cell" using k by (simp add: keeps_def)
    then show ?thesis using True by (simp add: openAt_def lettersOf_def empty_cell_def)
  next
    case False
    then show ?thesis by (simp add: openAt_def)
  qed
  have starts: "clue_start ` set (cluesOf d (computeCluesFromWorld s2)) = {p. wordStartSpec s2 d p}" for d
    using clue_starts_iff[of _ d s2] by blast
  have eq: "map clue_start (cluesR st) = map clue_start (cluesOf DirR (computeCluesFromWorld s2))"
    "map clue_start (cluesD st) = map clue_start (cluesOf DirD (computeCluesFromWorld s2))"
    "map clue_start (cluesI st) = map clue_start (cluesOf DirI (computeCluesFromWorld s2))"
    unfolding st_def load_dimsOnly s2_def by simp_all
  have img: "clue_start ` set cs = set (map clue_start cs)" for cs :: "clue list" by simp
  show "clue_start ` set (cluesR st) = {(x, y, z). inBounds st x y z \<and> x = 0 \<and> 2 \<le> nx}"
    unfolding img eq(1) unfolding img[symmetric] starts inb
    by (auto simp: wordStartSpec_def opn fwdCell_def backCell_def inBounds_def dims)
  show "clue_start ` set (cluesD st) = {(x, y, z). inBounds st x y z \<and> y = 0 \<and> 2 \<le> ny}"
    unfolding img eq(2) unfolding img[symmetric] starts inb
    by (auto simp: wordStartSpec_def opn fwdCell_def backCell_def inBounds_def dims)
  show "clue_start ` set (cluesI st) = {(x, y, z). inBounds st x y z \<and> z = 0 \<and> 2 \<le> nz}"
    unfolding img eq(3) unfolding img[symmetric] starts inb
    by (auto simp: wordStartSpec_def opn fwdCell_def backCell_def inBounds_def dims)
qed

lemma dimsOnly_errlog: "errlog (loadedState tbl (dimsOnly nx ny nz)) = []"
  unfolding load_dimsOnly by simp

text \<open>
  C5. The specification says that a record with dimensions but neither words nor solution
  letters loads into a puzzle whose cells are all open and whose three clue
  collections are empty. The load does succeed and every cell is open, but the
  loader derives the clues of a record without explicit clues from the grid, and an
  all-open grid has a run in every line: a 2 x 1 x 1 record already gets a rightward
  clue.
\<close>

theorem C5_counterexample:
  "\<forall>tbl. case loadPuzzleFromJSON tbl (dimsOnly 2 1 1) of
     Inl e \<Rightarrow> False
   | Inr st \<Rightarrow>
       cluesR st
         = [\<lparr>clue_n = 1, clue_start = (0, 0, 0), clue_len = 2, clue_hint = Some ''paremale'',
              clue_answer = Some ''??''\<rparr>]
       \<and> \<not> (cluesR st = [] \<and> cluesD st = [] \<and> cluesI st = [])"
proof
  fix tbl
  show "case loadPuzzleFromJSON tbl (dimsOnly 2 1 1) of
     Inl e \<Rightarrow> False
   | Inr st \<Rightarrow>
       cluesR st
         = [\<lparr>clue_n = 1, clue_start = (0, 0, 0), clue_len = 2, clue_hint = Some ''paremale'',
              clue_answer = Some ''??''\<rparr>]
       \<and> \<not> (cluesR st = [] \<and> cluesD st = [] \<and> cluesI st = [])"
    by code_simp
qed

text \<open>
  C5 as amended: loading a record that declares only its dimensions succeeds without
  a diagnostic and yields a well-shaped world of those dimensions in which every
  cell is open and has no solution letter and no entered letter; its clues are the
  ones derived from the all-open grid, one rightward clue starting at every cell
  with \<open>x = 0\<close> when \<open>NX \<ge> 2\<close>, one downward clue at every cell with \<open>y = 0\<close>
  when \<open>NY \<ge> 2\<close>, one inward clue at every cell with \<open>z = 0\<close> when
  \<open>NZ \<ge> 2\<close>; so the clue collection of a direction is empty only if the grid has
  no cell or is less than 2 cells long in that direction.
\<close>

theorem C5_dims_only_record:
  "\<exists>st. loadPuzzleFromJSON tbl (dimsOnly nx ny nz) = Inr st
    \<and> wellShaped st \<and> NX st = nx \<and> NY st = ny \<and> NZ st = nz \<and> errlog st = []
    \<and> (\<forall>x y z. inBounds st x y z \<longrightarrow>
          \<not> block (cell st x y z) \<and> sol (cell st x y z) = [] \<and> ch (cell st x y z) = [])
    \<and> clue_start ` set (cluesR st) = {(x, y, z). inBounds st x y z \<and> x = 0 \<and> 2 \<le> nx}
    \<and> clue_start ` set (cluesD st) = {(x, y, z). inBounds st x y z \<and> y = 0 \<and> 2 \<le> ny}
    \<and> clue_start ` set (cluesI st) = {(x, y, z). inBounds st x y z \<and> z = 0 \<and> 2 \<le> nz}
    \<and> (cluesR st = [] \<longleftrightarrow> nx < 2 \<or> ny = 0 \<or> nz = 0)
    \<and> (cluesD st = [] \<longleftrightarrow> ny < 2 \<or> nx = 0 \<or> nz = 0)
    \<and> (cluesI st = [] \<longleftrightarrow> nz < 2 \<or> nx = 0 \<or> ny = 0)"
proof -
  define st where "st = loadedState tbl (dimsOnly nx ny nz)"
  have ret: "loadPuzzleFromJSON tbl (dimsOnly nx ny nz) = Inr st"
    unfolding st_def by (rule load_returns)
  have k: "keeps lettersOf (emptyWorld nx ny nz) st" unfolding st_def by (rule dimsOnly_cells)
  have dims: "NX st = nx" "NY st = ny" "NZ st = nz" and ws: "wellShaped st"
    using k by (simp_all add: keeps_def)
  have cells: "\<forall>x y z. inBounds st x y z \<longrightarrow>
          \<not> block (cell st x y z) \<and> sol (cell st x y z) = [] \<and> ch (cell st x y z) = []"
  proof (intro allI impI)
    fix x y z assume "inBounds st x y z"
    then have inb: "inBounds (emptyWorld nx ny nz) x y z" by (simp add: inBounds_def dims)
    then have "lettersOf (cell st x y z) = lettersOf empty_cell" using k by (simp add: keeps_def)
    then show "\<not> block (cell st x y z) \<and> sol (cell st x y z) = [] \<and> ch (cell st x y z) = []"
      by (simp add: lettersOf_def empty_cell_def)
  qed
  note starts = dimsOnly_starts[of tbl nx ny nz, folded st_def]
  have origin: "inBounds st 0 0 0 \<longleftrightarrow> 0 < nx \<and> 0 < ny \<and> 0 < nz"
    by (simp add: inBounds_def dims)
  have emptyR: "cluesR st = [] \<longleftrightarrow> nx < 2 \<or> ny = 0 \<or> nz = 0"
  proof -
    have "clue_start ` set (cluesR st) = {} \<longleftrightarrow> \<not> (inBounds st 0 0 0 \<and> 2 \<le> nx)"
    proof
      assume e: "clue_start ` set (cluesR st) = {}"
      show "\<not> (inBounds st 0 0 0 \<and> 2 \<le> nx)"
      proof
        assume "inBounds st 0 0 0 \<and> 2 \<le> nx"
        then have "(0, 0, 0) \<in> clue_start ` set (cluesR st)" unfolding starts(1) by simp
        with e show False by simp
      qed
    next
      assume "\<not> (inBounds st 0 0 0 \<and> 2 \<le> nx)"
      then show "clue_start ` set (cluesR st) = {}"
        unfolding starts(1) by (auto simp: inBounds_def)
    qed
    then show ?thesis by (simp add: origin) linarith
  qed
  have emptyD: "cluesD st = [] \<longleftrightarrow> ny < 2 \<or> nx = 0 \<or> nz = 0"
  proof -
    have "clue_start ` set (cluesD st) = {} \<longleftrightarrow> \<not> (inBounds st 0 0 0 \<and> 2 \<le> ny)"
    proof
      assume e: "clue_start ` set (cluesD st) = {}"
      show "\<not> (inBounds st 0 0 0 \<and> 2 \<le> ny)"
      proof
        assume "inBounds st 0 0 0 \<and> 2 \<le> ny"
        then have "(0, 0, 0) \<in> clue_start ` set (cluesD st)" unfolding starts(2) by simp
        with e show False by simp
      qed
    next
      assume "\<not> (inBounds st 0 0 0 \<and> 2 \<le> ny)"
      then show "clue_start ` set (cluesD st) = {}"
        unfolding starts(2) by (auto simp: inBounds_def)
    qed
    then show ?thesis by (simp add: origin) linarith
  qed
  have emptyI: "cluesI st = [] \<longleftrightarrow> nz < 2 \<or> nx = 0 \<or> ny = 0"
  proof -
    have "clue_start ` set (cluesI st) = {} \<longleftrightarrow> \<not> (inBounds st 0 0 0 \<and> 2 \<le> nz)"
    proof
      assume e: "clue_start ` set (cluesI st) = {}"
      show "\<not> (inBounds st 0 0 0 \<and> 2 \<le> nz)"
      proof
        assume "inBounds st 0 0 0 \<and> 2 \<le> nz"
        then have "(0, 0, 0) \<in> clue_start ` set (cluesI st)" unfolding starts(3) by simp
        with e show False by simp
      qed
    next
      assume "\<not> (inBounds st 0 0 0 \<and> 2 \<le> nz)"
      then show "clue_start ` set (cluesI st) = {}"
        unfolding starts(3) by (auto simp: inBounds_def)
    qed
    then show ?thesis by (simp add: origin) linarith
  qed
  have err: "errlog st = []" unfolding st_def by (rule dimsOnly_errlog)
  show ?thesis
    by (rule exI[of _ st]) (intro conjI ret ws dims err cells starts emptyR emptyD emptyI)
qed

theorem C5_witness:
  "case loadPuzzleFromJSON exampleTable (dimsOnly 2 1 1) of
     Inl e \<Rightarrow> False
   | Inr st \<Rightarrow>
       inBounds st 1 0 0
       \<and> \<not> block (cell st 1 0 0) \<and> sol (cell st 1 0 0) = [] \<and> ch (cell st 1 0 0) = []
       \<and> errlog st = []
       \<and> cluesR st \<noteq> [] \<and> cluesD st = [] \<and> cluesI st = []"
proof -
  obtain st where ret: "loadPuzzleFromJSON exampleTable (dimsOnly 2 1 1) = Inr st"
    and dx: "NX st = 2" and dy: "NY st = 1" and dz: "NZ st = 1" and err: "errlog st = []"
    and cells: "\<forall>x y z. inBounds st x y z \<longrightarrow>
          \<not> block (cell st x y z) \<and> sol (cell st x y z) = [] \<and> ch (cell st x y z) = []"
    and eR: "cluesR st = [] \<longleftrightarrow> (2::nat) < 2 \<or> (1::nat) = 0 \<or> (1::nat) = 0"
    and eD: "cluesD st = [] \<longleftrightarrow> (1::nat) < 2 \<or> (2::nat) = 0 \<or> (1::nat) = 0"
    and eI: "cluesI st = [] \<longleftrightarrow> (1::nat) < 2 \<or> (2::nat) = 0 \<or> (1::nat) = 0"
    using C5_dims_only_record[of exampleTable 2 1 1] by (elim exE conjE)
  have inb: "inBounds st 1 0 0"
    unfolding inBounds_def dx dy dz by simp
  have rest: "cluesR st \<noteq> []" "cluesD st = []" "cluesI st = []"
    using eR eD eI by simp_all
  show ?thesis
    unfolding ret using inb cells[rule_format, OF inb] rest err by simp
qed

subsection \<open>Answer binding\<close>

lemma read_is_run_reading:
  "readWordFromSolution st p d = bindAnswerSpec st p d (runLength st p d)"
proof (induction st p d rule: readWordFromSolution.induct)
  case (1 st x y z d)
  show ?case
  proof (cases "inBounds st x y z \<and> \<not> block (cell st x y z)")
    case True
    have "readWordFromSolution st (x, y, z) d
            = solOrPlaceholder (cell st x y z) @ readWordFromSolution st (x + dx d, y + dy d, z + dz d) d"
      using True by (subst readWordFromSolution.simps) simp
    moreover have "runLength st (x, y, z) d = Suc (runLength st (x + dx d, y + dy d, z + dz d) d)"
      using True unfolding runLength_def by (subst wordLen.simps) simp
    ultimately show ?thesis
      using 1[OF True] by (simp add: fwdCell_def del: dx.simps dy.simps dz.simps)
  next
    case False
    have "readWordFromSolution st (x, y, z) d = []"
      using False by (subst readWordFromSolution.simps) auto
    moreover have "runLength st (x, y, z) d = 0"
      using False unfolding runLength_def by (subst wordLen.simps) auto
    ultimately show ?thesis by simp
  qed
qed

lemma foldl_clueStep_lens:
  assumes "list_all (\<lambda>c. clue_len c = runLength st (clue_start c) d) (cluesOf d (snd acc))"
  shows "list_all (\<lambda>c. clue_len c = runLength st (clue_start c) d)
           (cluesOf d (snd (foldl (clueStep st) acc ps)))"
  using assms
proof (induction ps arbitrary: acc)
  case Nil
  then show ?case by simp
next
  case (Cons p ps)
  have "list_all (\<lambda>c. clue_len c = runLength st (clue_start c) d) (cluesOf d (snd (clueStep st acc p)))"
    using Cons.prems
    by (cases acc rule: prod_cases4; cases p rule: prod_cases3; cases d)
       (simp_all add: cluesOf_def runLength_def Let_def)
  then show ?case using Cons.IH by simp
qed

lemma derived_lens:
  "list_all (\<lambda>c. clue_len c = runLength st (clue_start c) d) (cluesOf d (computeCluesFromWorld st))"
  unfolding computeCluesFromWorld_def
  by (rule foldl_clueStep_lens) (simp add: cluesOf_def split: dir.splits)

text \<open>
  C3. The specification says the bound answer reads exactly \<open>len\<close> cells. The binder never
  looks at \<open>len\<close>: it reads on until the first blocked or off-grid cell. A Format A
  word \<open>AB\<close> placed in an open row of three cells has \<open>len = 2\<close> and is bound to
  the three characters \<open>AB?\<close>.
\<close>

theorem C3_counterexample:
  "(\<forall>tbl. loadPuzzleFromJSON tbl exampleRow = Inr exampleLoaded)
   \<and> map clue_len (cluesR exampleLoaded) = [2]
   \<and> map clue_start (cluesR exampleLoaded) = [(0, 0, 0)]
   \<and> map clue_answer (cluesR exampleLoaded) = [Some ''AB?'']
   \<and> bindAnswerSpec exampleLoaded (0, 0, 0) DirR 2 = ''AB''
   \<and> \<not> (\<forall>c \<in> set (cluesR exampleLoaded).
          clue_answer c = Some (bindAnswerSpec exampleLoaded (clue_start c) DirR (clue_len c)))"
proof -
  have "loadedState tbl exampleRow = exampleLoaded" for tbl by code_simp
  then have 1: "\<forall>tbl. loadPuzzleFromJSON tbl exampleRow = Inr exampleLoaded"
    by (simp add: load_returns)
  have 2: "map clue_len (cluesR exampleLoaded) = [2]
   \<and> map clue_start (cluesR exampleLoaded) = [(0, 0, 0)]
   \<and> map clue_answer (cluesR exampleLoaded) = [Some ''AB?'']
   \<and> bindAnswerSpec exampleLoaded (0, 0, 0) DirR 2 = ''AB''
   \<and> \<not> (\<forall>c \<in> set (cluesR exampleLoaded).
          clue_answer c = Some (bindAnswerSpec exampleLoaded (clue_start c) DirR (clue_len c)))"
    by code_simp
  show ?thesis using 1 2 by (rule conjI)
qed

text \<open>
  C3 as amended: the answer bound to a clue is the concatenation of the solution
  letters, with the placeholder for an empty one, of the cells from the clue's start
  on in the clue's direction up to the first blocked or off-grid cell, whatever the
  stored \<open>len\<close>; it is the reading of exactly \<open>len\<close> cells whenever \<open>len\<close> is the
  length of that run, as it is for every clue the clue extractor derives; binding
  changes the answers of the clues only, never the grid.
\<close>

theorem C3_answer_reads_whole_run:
  "readWordFromSolution st p d = bindAnswerSpec st p d (runLength st p d)
   \<and> cluesR (attachAnswersToClues st)
       = map (\<lambda>c. c\<lparr>clue_answer :=
                    Some (bindAnswerSpec st (clue_start c) DirR (runLength st (clue_start c) DirR))\<rparr>)
           (cluesR st)
   \<and> cluesD (attachAnswersToClues st)
       = map (\<lambda>c. c\<lparr>clue_answer :=
                    Some (bindAnswerSpec st (clue_start c) DirD (runLength st (clue_start c) DirD))\<rparr>)
           (cluesD st)
   \<and> cluesI (attachAnswersToClues st)
       = map (\<lambda>c. c\<lparr>clue_answer :=
                    Some (bindAnswerSpec st (clue_start c) DirI (runLength st (clue_start c) DirI))\<rparr>)
           (cluesI st)
   \<and> (clue_len c = runLength st (clue_start c) d \<longrightarrow>
        readWordFromSolution st (clue_start c) d = bindAnswerSpec st (clue_start c) d (clue_len c))
   \<and> list_all (\<lambda>c. clue_len c = runLength st (clue_start c) d) (cluesOf d (computeCluesFromWorld st))
   \<and> world (attachAnswersToClues st) = world st
   \<and> NX (attachAnswersToClues st) = NX st \<and> NY (attachAnswersToClues st) = NY st
   \<and> NZ (attachAnswersToClues st) = NZ st"
  by (simp add: read_is_run_reading derived_lens attachAnswersToClues_def)

theorem C3_witness:
  "runLength exampleLoaded (0, 0, 0) DirR = 3
   \<and> readWordFromSolution exampleLoaded (0, 0, 0) DirR = ''AB?''
   \<and> bindAnswerSpec exampleLoaded (0, 0, 0) DirR 3 = ''AB?''
   \<and> clue_len \<lparr>clue_n = 1, clue_start = (0, 0, 0), clue_len = 3, clue_hint = None,
                clue_answer = None\<rparr> = runLength exampleLoaded (0, 0, 0) DirR"
proof -
  have r: "runLength exampleLoaded (0, 0, 0) DirR = 3" by code_simp
  have b: "bindAnswerSpec exampleLoaded (0, 0, 0) DirR 3 = ''AB?''" by code_simp
  have "clue_len \<lparr>clue_n = 1, clue_start = (0, 0, 0), clue_len = 3, clue_hint = None,
                clue_answer = None\<rparr> = runLength exampleLoaded (clue_start \<lparr>clue_n = 1,
                clue_start = (0, 0, 0), clue_len = 3, clue_hint = None, clue_answer = None\<rparr>) DirR"
    using r by simp
  then have "readWordFromSolution exampleLoaded (0, 0, 0) DirR
               = bindAnswerSpec exampleLoaded (0, 0, 0) DirR 3"
    using C3_answer_reads_whole_run[of exampleLoaded "(0, 0, 0)" DirR
             "\<lparr>clue_n = 1, clue_start = (0, 0, 0), clue_len = 3, clue_hint = None,
                clue_answer = None\<rparr>"]
    by simp
  then show ?thesis using r b by simp
qed

subsection \<open>The key of \<open>startToNumber\<close> determines the start coordinate\<close>

lemma digits_nonempty: "digits k \<noteq> []"
  by (subst digits.simps) simp

lemma digits_chars: "c \<in> set (digits k) \<Longrightarrow> 48 \<le> (of_char c :: nat) \<and> (of_char c :: nat) \<le> 57"
proof (induction k rule: digits.induct)
  case (1 k)
  show ?case
  proof (cases "k < 10")
    case True
    then have "digits k = [char_of (48 + k)]" by (subst digits.simps) simp
    then show ?thesis using 1(2) True by auto
  next
    case False
    then have "digits k = digits (k div 10) @ [char_of (48 + k mod 10)]"
      by (subst digits.simps) simp
    moreover have "(48 + k mod 10) mod 256 = 48 + k mod 10" by simp
    ultimately show ?thesis using 1 False by auto
  qed
qed

lemma digit_char_inj:
  assumes "a < 10" "b < 10" "(char_of (48 + a) :: char) = char_of (48 + b)"
  shows "a = (b::nat)"
proof -
  have "(of_char (char_of (48 + a) :: char) :: nat) = of_char (char_of (48 + b) :: char)"
    using assms(3) by simp
  then show ?thesis using assms(1,2) by simp
qed

lemma digits_inj: "digits a = digits b \<Longrightarrow> a = b"
proof (induction a arbitrary: b rule: digits.induct)
  case (1 a)
  show ?case
  proof (cases "a < 10")
    case a: True
    then have da: "digits a = [char_of (48 + a)]" by (subst digits.simps) simp
    show ?thesis
    proof (cases "b < 10")
      case True
      then have "digits b = [char_of (48 + b)]" by (subst digits.simps) simp
      then show ?thesis using da 1(2) a True by (auto intro: digit_char_inj)
    next
      case False
      then have "digits b = digits (b div 10) @ [char_of (48 + b mod 10)]"
        by (subst digits.simps) simp
      then show ?thesis using da 1(2) digits_nonempty[of "b div 10"] by simp
    qed
  next
    case a: False
    then have da: "digits a = digits (a div 10) @ [char_of (48 + a mod 10)]"
      by (subst digits.simps) simp
    show ?thesis
    proof (cases "b < 10")
      case True
      then have "digits b = [char_of (48 + b)]" by (subst digits.simps) simp
      then show ?thesis using da 1(2) digits_nonempty[of "a div 10"] by simp
    next
      case False
      then have db: "digits b = digits (b div 10) @ [char_of (48 + b mod 10)]"
        by (subst digits.simps) simp
      have "digits (a div 10) = digits (b div 10)"
        and l: "(char_of (48 + a mod 10) :: char) = char_of (48 + b mod 10)"
        using da db 1(2) by simp_all
      then have "a div 10 = b div 10" using 1(1)[OF a] by simp
      moreover have "a mod 10 = b mod 10" using l by (intro digit_char_inj) simp_all
      ultimately show ?thesis by (metis div_mult_mod_eq)
    qed
  qed
qed

lemma showInt_chars: "CHR '','' \<notin> set (showInt i)"
proof
  assume c: "CHR '','' \<in> set (showInt i)"
  have "\<And>k. CHR '','' \<notin> set (digits k)" using digits_chars[of "CHR '',''"] by auto
  then show False using c by (auto simp: showInt_def split: if_splits)
qed

lemma showInt_inj: "showInt i = showInt j \<Longrightarrow> i = j"
proof -
  assume e: "showInt i = showInt j"
  have nd: "\<And>k. hd (digits k) \<noteq> CHR ''-''"
  proof
    fix k assume h: "hd (digits k) = CHR ''-''"
    have "hd (digits k) \<in> set (digits k)" using digits_nonempty by simp
    then show False using digits_chars[of "hd (digits k)" k] h by simp
  qed
  show ?thesis
  proof (cases "i < 0"; cases "j < 0")
    assume "i < 0" "j < 0"
    then have "digits (nat (- i)) = digits (nat (- j))" using e by (simp add: showInt_def)
    then have "nat (- i) = nat (- j)" by (rule digits_inj)
    then show ?thesis using \<open>i < 0\<close> \<open>j < 0\<close> by simp
  next
    assume "i < 0" "\<not> j < 0"
    then have "CHR ''-'' # digits (nat (- i)) = digits (nat j)" using e by (simp add: showInt_def)
    then have "hd (digits (nat j)) = CHR ''-''" by (metis list.sel(1))
    then show ?thesis using nd by simp
  next
    assume "\<not> i < 0" "j < 0"
    then have "digits (nat i) = CHR ''-'' # digits (nat (- j))" using e by (simp add: showInt_def)
    then have "hd (digits (nat i)) = CHR ''-''" by (metis list.sel(1))
    then show ?thesis using nd by simp
  next
    assume "\<not> i < 0" "\<not> j < 0"
    then have "digits (nat i) = digits (nat j)" using e by (simp add: showInt_def)
    then have "nat i = nat j" by (rule digits_inj)
    then show ?thesis using \<open>\<not> i < 0\<close> \<open>\<not> j < 0\<close> by simp
  qed
qed

lemma split_at_separator:
  assumes "xs @ c # ys = xs' @ c # ys'" "c \<notin> set xs" "c \<notin> set xs'"
  shows "xs = xs' \<and> ys = ys'"
proof -
  have "takeWhile (\<lambda>x. x \<noteq> c) (xs @ c # ys) = xs"
    using assms(2) by (subst takeWhile_append2) auto
  moreover have "takeWhile (\<lambda>x. x \<noteq> c) (xs' @ c # ys') = xs'"
    using assms(3) by (subst takeWhile_append2) auto
  ultimately have "xs = xs'" using assms(1) by simp
  then show ?thesis using assms(1) by simp
qed

lemma startKey_inj: "startKey p = startKey q \<Longrightarrow> p = q"
proof -
  assume e: "startKey p = startKey q"
  obtain x y z where p: "p = (x, y, z)" by (cases p)
  obtain a b c where q: "q = (a, b, c)" by (cases q)
  have e': "showInt x @ CHR '','' # (showInt y @ CHR '','' # showInt z)
          = showInt a @ CHR '','' # (showInt b @ CHR '','' # showInt c)"
    using e by (simp add: startKey_def p q)
  have 1: "showInt x = showInt a"
    and r: "showInt y @ CHR '','' # showInt z = showInt b @ CHR '','' # showInt c"
    using split_at_separator[OF e' showInt_chars showInt_chars] by simp_all
  have 2: "showInt y = showInt b" and 3: "showInt z = showInt c"
    using split_at_separator[OF r showInt_chars showInt_chars] by simp_all
  show ?thesis using 1 2 3 by (simp add: p q showInt_inj)
qed

subsection \<open>Sequence numbers\<close>

lemma stateClues_pushClue [simp]: "stateClues (pushClue d c st) = insert c (stateClues st)"
  by (cases d) (auto simp: pushClue_def stateClues_def)

lemma numberMapOK_startKeyed:
  assumes "numberMapOK m nextN st"
  shows "startKeyed (startNumbers (stateClues st))"
  unfolding startKeyed_def startNumbers_def
proof (intro allI impI)
  fix p1 n1 p2 n2
  assume "(p1, n1) \<in> (\<lambda>c. (clue_start c, clue_n c)) ` stateClues st
        \<and> (p2, n2) \<in> (\<lambda>c. (clue_start c, clue_n c)) ` stateClues st"
  then obtain c1 c2 where c1: "c1 \<in> stateClues st" "p1 = clue_start c1" "n1 = clue_n c1"
    and c2: "c2 \<in> stateClues st" "p2 = clue_start c2" "n2 = clue_n c2" by auto
  have m1: "m (startKey p1) = Some n1" and m2: "m (startKey p2) = Some n2"
    using assms c1 c2 by (auto simp: numberMapOK_def)
  show "(p1 = p2) \<longleftrightarrow> (n1 = n2)"
  proof
    assume "p1 = p2" then show "n1 = n2" using m1 m2 by simp
  next
    assume "n1 = n2"
    then have "startKey p1 = startKey p2" using assms m1 m2 unfolding numberMapOK_def by blast
    then show "p1 = p2" by (rule startKey_inj)
  qed
qed

lemma buildClues_invariant:
  assumes "numberMapOK m nextN st"
  shows "\<exists>m' nextN'. numberMapOK m' nextN' (buildClues tbl ws m nextN st)"
  using assms
proof (induction ws arbitrary: m nextN st)
  case Nil
  then show ?case by auto
next
  case (Cons w ws)
  define key where "key = startKey (w_start w)"
  define fresh where "fresh = (case m key of None \<Rightarrow> True | Some k \<Rightarrow> k = 0)"
  define k where "k = (if fresh then nextN else the (m key))"
  define m' where "m' = (if fresh then m(key \<mapsto> nextN) else m)"
  define nextN' where "nextN' = (if fresh then nextN + 1 else nextN)"
  define c where "c = \<lparr>clue_n = k, clue_start = w_start w, clue_len = length (answerOf w),
               clue_hint = Some (case w_clue w of None \<Rightarrow> defaultHint (w_dir w) | Some h \<Rightarrow> h),
               clue_answer = Some (toUpperCase tbl (answerOf w))\<rparr>"
  have step: "buildClues tbl (w # ws) m nextN st = buildClues tbl ws m' nextN' (pushClue (w_dir w) c st)"
    by (simp add: Let_def key_def fresh_def k_def m'_def nextN'_def c_def)
  have pos: "1 \<le> nextN"
    and inv: "\<And>key k. m key = Some k \<Longrightarrow> 1 \<le> k \<and> k < nextN"
    and inj: "\<And>k1 k2 v. m k1 = Some v \<Longrightarrow> m k2 = Some v \<Longrightarrow> k1 = k2"
    and old: "\<And>c. c \<in> stateClues st \<Longrightarrow> m (startKey (clue_start c)) = Some (clue_n c)"
    using Cons.prems unfolding numberMapOK_def by blast+
  have cfields: "clue_start c = w_start w" "clue_n c = k" by (simp_all add: c_def)
  have "numberMapOK m' nextN' (pushClue (w_dir w) c st)"
  proof (cases fresh)
    case True
    have none: "m key = None"
    proof (cases "m key")
      case (Some v)
      then have "v = 0" using True by (simp add: fresh_def)
      then show ?thesis using inv[OF Some] by simp
    qed simp
    have m': "m' = m(key \<mapsto> nextN)" and n': "nextN' = nextN + 1" and k: "k = nextN"
      using True by (simp_all add: m'_def nextN'_def k_def)
    have a: "\<forall>key k. m' key = Some k \<longrightarrow> 1 \<le> k \<and> k < nextN'"
    proof (intro allI impI)
      fix key' v assume "m' key' = Some v"
      then have "v = nextN \<or> m key' = Some v" by (auto simp: m' split: if_splits)
      then show "1 \<le> v \<and> v < nextN'"
      proof
        assume "v = nextN" then show ?thesis using pos by (simp add: n')
      next
        assume "m key' = Some v" then show ?thesis using inv[of key' v] by (simp add: n')
      qed
    qed
    have b: "\<forall>k1 k2 v. m' k1 = Some v \<and> m' k2 = Some v \<longrightarrow> k1 = k2"
    proof (intro allI impI)
      fix k1 k2 v assume h: "m' k1 = Some v \<and> m' k2 = Some v"
      show "k1 = k2"
      proof (cases "k1 = key"; cases "k2 = key")
        assume "k1 = key" "k2 \<noteq> key"
        then have "v = nextN" "m k2 = Some v" using h by (simp_all add: m')
        then show ?thesis using inv[of k2 v] by simp
      next
        assume "k1 \<noteq> key" "k2 = key"
        then have "v = nextN" "m k1 = Some v" using h by (simp_all add: m')
        then show ?thesis using inv[of k1 v] by simp
      next
        assume "k1 \<noteq> key" "k2 \<noteq> key"
        then show ?thesis using h inj by (simp add: m')
      qed simp
    qed
    have d: "\<forall>c' \<in> stateClues (pushClue (w_dir w) c st). m' (startKey (clue_start c')) = Some (clue_n c')"
    proof
      fix c' assume "c' \<in> stateClues (pushClue (w_dir w) c st)"
      then consider "c' = c" | "c' \<in> stateClues st" by auto
      then show "m' (startKey (clue_start c')) = Some (clue_n c')"
      proof cases
        case 1
        then show ?thesis by (simp add: cfields m' key_def k)
      next
        case 2
        then have o: "m (startKey (clue_start c')) = Some (clue_n c')" by (rule old)
        then have "startKey (clue_start c') \<noteq> key" using none by auto
        then show ?thesis using o by (simp add: m')
      qed
    qed
    show ?thesis using a b d pos unfolding numberMapOK_def n' by simp
  next
    case False
    then obtain v where v: "m key = Some v" by (auto simp: fresh_def split: option.splits)
    have m': "m' = m" and n': "nextN' = nextN" and k: "k = v"
      using False v by (simp_all add: m'_def nextN'_def k_def)
    have d: "\<forall>c' \<in> stateClues (pushClue (w_dir w) c st). m (startKey (clue_start c')) = Some (clue_n c')"
    proof
      fix c' assume "c' \<in> stateClues (pushClue (w_dir w) c st)"
      then consider "c' = c" | "c' \<in> stateClues st" by auto
      then show "m (startKey (clue_start c')) = Some (clue_n c')"
      proof cases
        case 1
        then show ?thesis using v by (simp add: cfields key_def k)
      next
        case 2
        then show ?thesis by (rule old)
      qed
    qed
    show ?thesis using Cons.prems d unfolding numberMapOK_def m' n' by simp
  qed
  then show ?case unfolding step by (rule Cons.IH)
qed

lemma buildClues_startKeyed:
  assumes "stateClues st = {}"
  shows "startKeyed (startNumbers (stateClues (buildClues tbl ws Map.empty 1 st)))"
proof -
  have "numberMapOK Map.empty 1 st" using assms by (simp add: numberMapOK_def)
  then obtain m' n' where "numberMapOK m' n' (buildClues tbl ws Map.empty 1 st)"
    using buildClues_invariant by blast
  then show ?thesis by (rule numberMapOK_startKeyed)
qed

text \<open>The invariant of the scan that derives the clues.\<close>

lemma clueStep_result:
  "\<exists>k' rs' ds' is'. clueStep st (k, rs, ds, is) p = (k', rs', ds', is') \<and> k \<le> k' \<and>
     (\<forall>c \<in> set rs' \<union> set ds' \<union> set is'.
        c \<in> set rs \<union> set ds \<union> set is \<or> (clue_start c = p \<and> clue_n c = k + 1 \<and> k' = k + 1))"
proof -
  obtain x y z where p: "p = (x, y, z)" by (cases p)
  show ?thesis
  proof (cases "block (cell st x y z)")
    case True
    then show ?thesis by (simp add: p)
  next
    case False
    then show ?thesis
      unfolding p
      by (cases "startsR st x y z"; cases "startsD st x y z"; cases "startsI st x y z")
         (auto simp add: Let_def)
  qed
qed

lemma clueStep_numbering:
  assumes "p \<notin> clue_start ` tripleClues (snd acc)"
    and "\<forall>c \<in> tripleClues (snd acc). clue_n c \<le> fst acc"
    and "startKeyed (startNumbers (tripleClues (snd acc)))"
  shows "startKeyed (startNumbers (tripleClues (snd (clueStep st acc p))))
         \<and> (\<forall>c \<in> tripleClues (snd (clueStep st acc p)). clue_n c \<le> fst (clueStep st acc p))
         \<and> clue_start ` tripleClues (snd (clueStep st acc p))
              \<subseteq> insert p (clue_start ` tripleClues (snd acc))
         \<and> fst acc \<le> fst (clueStep st acc p)"
proof -
  obtain k rs ds "is" where acc: "acc = (k, rs, ds, is)" by (cases acc rule: prod_cases4)
  obtain x y z where p: "p = (x, y, z)" by (cases p)
  define S where "S = set rs \<union> set ds \<union> set is"
  have old: "\<And>c. c \<in> S \<Longrightarrow> clue_n c \<le> k \<and> clue_start c \<noteq> p"
    using assms(1,2) by (auto simp: acc tripleClues_def S_def)
  have keyed: "(clue_start c1 = clue_start c2) = (clue_n c1 = clue_n c2)"
    if "c1 \<in> S" "c2 \<in> S" for c1 c2
  proof -
    have "(clue_start c1, clue_n c1) \<in> startNumbers (tripleClues (snd acc))"
      "(clue_start c2, clue_n c2) \<in> startNumbers (tripleClues (snd acc))"
      using that by (auto simp: startNumbers_def acc tripleClues_def S_def)
    then show ?thesis using assms(3) unfolding startKeyed_def by blast
  qed
  obtain k' rs' ds' is' where res: "clueStep st (k, rs, ds, is) p = (k', rs', ds', is')"
    and kk: "k \<le> k'"
    and new0: "\<forall>c \<in> set rs' \<union> set ds' \<union> set is'.
        c \<in> set rs \<union> set ds \<union> set is \<or> (clue_start c = p \<and> clue_n c = k + 1 \<and> k' = k + 1)"
    using clueStep_result[of st k rs ds "is" p] by blast
  define T where "T = set rs' \<union> set ds' \<union> set is'"
  have new: "\<And>c. c \<in> T \<Longrightarrow> c \<in> S \<or> (clue_start c = p \<and> clue_n c = k + 1 \<and> k' = k + 1)"
    using new0 unfolding T_def S_def by blast
  have 1: "startKeyed (startNumbers T)"
    unfolding startKeyed_def startNumbers_def
  proof (intro allI impI)
    fix p1 n1 p2 n2
    assume "(p1, n1) \<in> (\<lambda>c. (clue_start c, clue_n c)) ` T \<and> (p2, n2) \<in> (\<lambda>c. (clue_start c, clue_n c)) ` T"
    then obtain c1 c2 where c1: "c1 \<in> T" "p1 = clue_start c1" "n1 = clue_n c1"
      and c2: "c2 \<in> T" "p2 = clue_start c2" "n2 = clue_n c2" by auto
    consider "c1 \<in> S" "c2 \<in> S"
      | "c1 \<in> S" "clue_start c2 = p" "clue_n c2 = k + 1"
      | "clue_start c1 = p" "clue_n c1 = k + 1" "c2 \<in> S"
      | "clue_start c1 = p" "clue_n c1 = k + 1" "clue_start c2 = p" "clue_n c2 = k + 1"
      using new[OF c1(1)] new[OF c2(1)] by blast
    then show "(p1 = p2) = (n1 = n2)"
    proof cases
      case 1
      then show ?thesis using keyed by (simp add: c1 c2)
    next
      case 2
      then show ?thesis using old[of c1] by (auto simp: c1 c2)
    next
      case 3
      then show ?thesis using old[of c2] by (auto simp: c1 c2)
    next
      case 4
      then show ?thesis by (simp add: c1 c2)
    qed
  qed
  have 2: "\<forall>c \<in> T. clue_n c \<le> k'"
    using new old kk by fastforce
  have 3: "clue_start ` T \<subseteq> insert p (clue_start ` S)"
    using new by fastforce
  show ?thesis
    using 1 2 3 kk unfolding T_def S_def acc by (simp add: res tripleClues_def del: clueStep.simps)
qed

lemma foldl_clueStep_numbering:
  assumes "distinct ps" "set ps \<inter> clue_start ` tripleClues (snd acc) = {}"
    and "\<forall>c \<in> tripleClues (snd acc). clue_n c \<le> fst acc"
    and "startKeyed (startNumbers (tripleClues (snd acc)))"
  shows "startKeyed (startNumbers (tripleClues (snd (foldl (clueStep st) acc ps))))"
  using assms
proof (induction ps arbitrary: acc)
  case Nil
  then show ?case by simp
next
  case (Cons p ps)
  have "p \<notin> clue_start ` tripleClues (snd acc)" using Cons.prems(2) by auto
  note s = clueStep_numbering[OF this Cons.prems(3,4), of st]
  have sub: "clue_start ` tripleClues (snd (clueStep st acc p))
              \<subseteq> insert p (clue_start ` tripleClues (snd acc))"
    using s by blast
  have "set ps \<inter> insert p (clue_start ` tripleClues (snd acc)) = {}"
    using Cons.prems(1,2) by auto
  then have "set ps \<inter> clue_start ` tripleClues (snd (clueStep st acc p)) = {}"
    using sub by blast
  then have "startKeyed (startNumbers (tripleClues (snd (foldl (clueStep st) (clueStep st acc p) ps))))"
    using s Cons.prems(1) by (intro Cons.IH) auto
  then show ?case by simp
qed

lemma derived_startKeyed: "startKeyed (startNumbers (tripleClues (computeCluesFromWorld st)))"
  unfolding computeCluesFromWorld_def
  by (rule foldl_clueStep_numbering)
     (simp_all add: distinct_allCells tripleClues_def startKeyed_def startNumbers_def)

lemma startNumbers_map:
  assumes "\<And>c. clue_start (f c) = clue_start c" "\<And>c. clue_n (f c) = clue_n c"
  shows "startNumbers (f ` cs) = startNumbers cs"
  unfolding startNumbers_def image_image by (simp add: assms)

lemma startNumbers_Un: "startNumbers (A \<union> B) = startNumbers A \<union> startNumbers B"
  by (auto simp: startNumbers_def)

lemma startNumbers_attach:
  "startNumbers (stateClues (attachAnswersToClues st)) = startNumbers (stateClues st)"
  unfolding stateClues_def attachAnswersToClues_def
  by (simp add: startNumbers_Un startNumbers_map)

lemma startNumbers_set_map:
  assumes "\<And>c. clue_start (f c) = clue_start c" "\<And>c. clue_n (f c) = clue_n c"
  shows "startNumbers (set (map f cs)) = startNumbers (set cs)"
  unfolding set_map using assms by (rule startNumbers_map)

lemma startNumbers_ensureHint:
  "startNumbers (stateClues (ensureHintFields st)) = startNumbers (stateClues st)"
proof -
  have "startNumbers (set (map (\<lambda>c. if noHint c then c\<lparr>clue_hint := Some h\<rparr> else c) cs))
          = startNumbers (set cs)" for h cs
    by (rule startNumbers_set_map) simp_all
  then show ?thesis
    unfolding stateClues_def ensureHintFields_def startNumbers_Un by simp
qed

lemma stateClues_applyNumbers [simp]: "stateClues (applyNumbers st) = stateClues st"
  by (simp add: stateClues_def)

lemma writeLetters_clues [simp]:
  "cluesR (writeLetters w cs x y z st) = cluesR st"
  "cluesD (writeLetters w cs x y z st) = cluesD st"
  "cluesI (writeLetters w cs x y z st) = cluesI st"
  by (induction cs arbitrary: x y z st; simp add: Let_def)+

lemma writeWord_clues [simp]:
  "cluesR (writeWord tbl st w) = cluesR st" "cluesD (writeWord tbl st w) = cluesD st"
  "cluesI (writeWord tbl st w) = cluesI st"
  by (simp_all add: writeWord_def split: prod.splits)

lemma foldl_writeWord_clues [simp]:
  "cluesR (foldl (writeWord tbl) st ws) = cluesR st" "cluesD (foldl (writeWord tbl) st ws) = cluesD st"
  "cluesI (foldl (writeWord tbl) st ws) = cluesI st"
  by (rule foldl_unchanged, simp)+

lemma load_startKeyed:
  assumes "js_words js \<noteq> [] \<or> \<not> hasClues js"
  shows "startKeyed (startNumbers (stateClues (loadedState tbl js)))"
proof -
  define s1 where "s1 = withBlocks (js_blocks js) (emptyWorld (js_nx js) (js_ny js) (js_nz js))"
  define s2 where "s2 = clearNumbers (s1\<lparr>cluesR := [], cluesD := [], cluesI := []\<rparr>)"
  show ?thesis
  proof (cases "js_words js \<noteq> []")
    case True
    define s3 where "s3 = foldl (writeWord tbl) s2 (js_words js)"
    define s4 where "s4 = buildClues tbl (js_words js) Map.empty 1 s3"
    have "stateClues s3 = {}" by (simp add: stateClues_def s3_def s2_def)
    then have "startKeyed (startNumbers (stateClues s4))"
      unfolding s4_def by (rule buildClues_startKeyed)
    moreover have "loadedState tbl js = attachAnswersToClues (applyNumbers s4)"
      using True by (simp add: loadedState_def loadAfterBlocks_def Let_def s1_def s2_def s3_def s4_def)
    ultimately show ?thesis by (simp add: startNumbers_attach)
  next
    case False
    then have nc: "\<not> hasClues js" using assms by simp
    define s3 where "s3 = applySolution (js_solution js) s2"
    obtain rs ds "is" where t: "computeCluesFromWorld s3 = (rs, ds, is)"
      by (cases "computeCluesFromWorld s3")
    define s4 where "s4 = ensureHintFields (s3\<lparr>cluesR := rs, cluesD := ds, cluesI := is\<rparr>)"
    have "stateClues (s3\<lparr>cluesR := rs, cluesD := ds, cluesI := is\<rparr>) = tripleClues (computeCluesFromWorld s3)"
      by (simp add: stateClues_def tripleClues_def t)
    then have "startKeyed (startNumbers (stateClues s4))"
      unfolding s4_def startNumbers_ensureHint using derived_startKeyed[of s3] by simp
    moreover have "loadedState tbl js = attachAnswersToClues (applyNumbers s4)"
      using False nc t by (simp add: loadedState_def loadAfterBlocks_def Let_def s1_def s2_def s3_def s4_def)
    ultimately show ?thesis by (simp add: startNumbers_attach)
  qed
qed

text \<open>
  C7. In the Format A path (a non-empty word list) and in the derived-clue path (a
  Format B record without explicit clues, and the scans \<open>computeCluesFromWorld\<close> and
  \<open>computeDirectionalCluesJSON\<close> themselves) any two clues have the same sequence
  number exactly when they have the same start coordinate.
\<close>

theorem C7_numbering_keyed_by_start:
  "(js_words js \<noteq> [] \<or> \<not> hasClues js \<longrightarrow>
      (\<exists>s. loadPuzzleFromJSON tbl js = Inr s \<and> startKeyed (startNumbers (stateClues s))))
   \<and> startKeyed (startNumbers (tripleClues (computeCluesFromWorld st)))
   \<and> startKeyed (startNumbers (tripleClues (computeDirectionalCluesJSON st)))"
  using load_startKeyed[of js tbl] derived_startKeyed[of st]
  by (simp add: computeDirectionalCluesJSON_eq load_returns)

theorem C7_witness:
  "js_words exampleWords \<noteq> []
   \<and> (case loadPuzzleFromJSON exampleTable exampleWords of
         Inl e \<Rightarrow> False
       | Inr s \<Rightarrow>
           startKeyed (startNumbers (stateClues s))
           \<and> map (\<lambda>c. (clue_start c, clue_n c)) (cluesR s) = [((0, 0, 0), 1)]
           \<and> map (\<lambda>c. (clue_start c, clue_n c)) (cluesD s) = [((2, 0, 0), 2), ((0, 0, 0), 1)])"
proof -
  have w: "js_words exampleWords \<noteq> []" by (simp add: exampleWords_def)
  obtain s where ret: "loadPuzzleFromJSON exampleTable exampleWords = Inr s"
    and k: "startKeyed (startNumbers (stateClues s))"
    using C7_numbering_keyed_by_start[of exampleWords exampleTable] w by blast
  have s: "s = loadedState exampleTable exampleWords" using ret by (simp add: load_returns)
  have r: "map (\<lambda>c. (clue_start c, clue_n c)) (cluesR s) = [((0, 0, 0), 1)]"
    unfolding s by code_simp
  have d: "map (\<lambda>c. (clue_start c, clue_n c)) (cluesD s) = [((2, 0, 0), 2), ((0, 0, 0), 1)]"
    unfolding s by code_simp
  show ?thesis unfolding ret using w k r d by simp
qed

section \<open>The placement loop\<close>

lemma genLoop_unfold:
  "genLoop cfg rnd targetBlocks s =
     (if genCond cfg targetBlocks s then genLoop cfg rnd targetBlocks (genStep cfg rnd s) else s)"
proof -
  obtain st blocks tries where s: "s = (st, blocks, tries)" by (cases s)
  show ?thesis
    unfolding s
    by (subst genLoop.simps) (simp add: genCond_def genStep_def placementOK_def Let_def)
qed

lemma genStep_tries: "snd (snd (genStep cfg rnd (st, blocks, tries))) = tries + 1"
  by (simp add: genStep_def Let_def)

lemma genLoop_rule:
  assumes "P s" and step: "\<And>s. P s \<Longrightarrow> genCond cfg targetBlocks s \<Longrightarrow> P (genStep cfg rnd s)"
  shows "P (genLoop cfg rnd targetBlocks s) \<and> \<not> genCond cfg targetBlocks (genLoop cfg rnd targetBlocks s)"
  using assms(1)
proof (induction "maxTries cfg - snd (snd s)" arbitrary: s rule: less_induct)
  case less
  show ?case
  proof (cases "genCond cfg targetBlocks s")
    case False
    then show ?thesis using less.prems by (subst (1 2) genLoop_unfold) simp
  next
    case True
    obtain st blocks tries where s: "s = (st, blocks, tries)" by (cases s)
    have "tries < maxTries cfg" using True by (simp add: genCond_def s)
    then have "maxTries cfg - snd (snd (genStep cfg rnd s)) < maxTries cfg - snd (snd s)"
      unfolding s genStep_tries by simp
    then have "P (genLoop cfg rnd targetBlocks (genStep cfg rnd s)) \<and>
               \<not> genCond cfg targetBlocks (genLoop cfg rnd targetBlocks (genStep cfg rnd s))"
      using step[OF less.prems True] by (rule less.hyps)
    then show ?thesis using True by (subst (1 2) genLoop_unfold) simp
  qed
qed

lemma randomIndex_range:
  assumes "0 \<le> r" "r < 1" "0 < k"
  shows "0 \<le> randomIndex r k \<and> randomIndex r k < int k"
proof -
  have "0 \<le> r * of_nat k" using assms by simp
  moreover have "r * of_nat k < of_nat k" using assms by simp
  ultimately show ?thesis
    unfolding randomIndex_def by (simp add: floor_less_iff)
qed

lemma unblock_restores:
  assumes "wellShaped st" "inBounds st x y z" "\<not> block (cell st x y z)"
  shows "upd (upd st x y z (\<lambda>ce. ce\<lparr>block := True\<rparr>)) x y z (\<lambda>ce. ce\<lparr>block := False\<rparr>) = st"
proof -
  have "upd (upd st x y z (\<lambda>ce. ce\<lparr>block := True\<rparr>)) x y z (\<lambda>ce. ce\<lparr>block := False\<rparr>)
          = upd st x y z ((\<lambda>ce. ce\<lparr>block := False\<rparr>) \<circ> (\<lambda>ce. ce\<lparr>block := True\<rparr>))"
    using assms(1,2) by (rule upd_upd)
  also have "\<dots> = st" using assms(3) by (intro upd_id) simp
  finally show ?thesis .
qed

text \<open>
  One iteration either leaves the world as it was (the picked cell was blocked
  already, or the placement was rolled back) or blocks one open cell for which the
  checks passed.
\<close>

lemma genStep_cases:
  assumes rnd: "\<And>i. 0 \<le> rnd i \<and> rnd i < 1"
    and ws: "wellShaped st" and pos: "0 < NX st" "0 < NY st" "0 < NZ st"
  obtains (same) "genStep cfg rnd (st, blocks, tries) = (st, blocks, tries + 1)"
  | (placed) x y z where "inBounds st x y z" "\<not> block (cell st x y z)"
      "placementOK cfg (upd st x y z (\<lambda>ce. ce\<lparr>block := True\<rparr>)) x y z"
      "genStep cfg rnd (st, blocks, tries)
         = (upd st x y z (\<lambda>ce. ce\<lparr>block := True\<rparr>), blocks + 1, tries + 1)"
proof -
  define x where "x = randomIndex (rnd (3 * tries)) (NX st)"
  define y where "y = randomIndex (rnd (3 * tries + 1)) (NY st)"
  define z where "z = randomIndex (rnd (3 * tries + 2)) (NZ st)"
  have inb: "inBounds st x y z"
    unfolding inBounds_def x_def y_def z_def
    using randomIndex_range[of "rnd (3 * tries)" "NX st"]
      randomIndex_range[of "rnd (3 * tries + 1)" "NY st"]
      randomIndex_range[of "rnd (3 * tries + 2)" "NZ st"] rnd pos by simp
  show thesis
  proof (cases "block (cell st x y z)")
    case True
    then have "genStep cfg rnd (st, blocks, tries) = (st, blocks, tries + 1)"
      by (simp add: genStep_def Let_def x_def y_def z_def)
    then show thesis by (rule same)
  next
    case free: False
    show thesis
    proof (cases "placementOK cfg (upd st x y z (\<lambda>ce. ce\<lparr>block := True\<rparr>)) x y z")
      case True
      then have "genStep cfg rnd (st, blocks, tries)
         = (upd st x y z (\<lambda>ce. ce\<lparr>block := True\<rparr>), blocks + 1, tries + 1)"
        using free by (simp add: genStep_def Let_def x_def y_def z_def)
      then show thesis using inb free True by (intro placed)
    next
      case False
      then have "genStep cfg rnd (st, blocks, tries)
         = (upd (upd st x y z (\<lambda>ce. ce\<lparr>block := True\<rparr>)) x y z (\<lambda>ce. ce\<lparr>block := False\<rparr>),
            blocks, tries + 1)"
        using free by (simp add: genStep_def Let_def x_def y_def z_def)
      then have "genStep cfg rnd (st, blocks, tries) = (st, blocks, tries + 1)"
        using unblock_restores[OF ws inb free] by simp
      then show thesis by (rule same)
    qed
  qed
qed

subsection \<open>Counting the blocks\<close>

lemma allCells_upd [simp]: "allCells (upd st x y z f) = allCells st"
  by (simp add: allCells_def)

lemma blockedCount_card:
  "blockedCount st = card {p \<in> set (allCells st). case p of (x, y, z) \<Rightarrow> block (cell st x y z)}"
proof -
  have "blockedCount st
          = card ({p. case p of (x, y, z) \<Rightarrow> block (cell st x y z)} \<inter> set (allCells st))"
    unfolding blockedCount_def blockedCells_def
    using distinct_allCells by (rule distinct_length_filter)
  moreover have "{p. case p of (x, y, z) \<Rightarrow> block (cell st x y z)} \<inter> set (allCells st)
          = {p \<in> set (allCells st). case p of (x, y, z) \<Rightarrow> block (cell st x y z)}" by auto
  ultimately show ?thesis by simp
qed

lemma blockedCount_place:
  assumes "wellShaped st" "inBounds st x y z" "\<not> block (cell st x y z)"
  shows "blockedCount (upd st x y z (\<lambda>ce. ce\<lparr>block := True\<rparr>)) = blockedCount st + 1"
proof -
  let ?t = "upd st x y z (\<lambda>ce. ce\<lparr>block := True\<rparr>)"
  let ?B = "{p \<in> set (allCells st). case p of (x, y, z) \<Rightarrow> block (cell st x y z)}"
  have "{p \<in> set (allCells ?t). case p of (x, y, z) \<Rightarrow> block (cell ?t x y z)} = insert (x, y, z) ?B"
    using assms(1,2) by (auto simp: set_allCells cell_upd inBounds_def split: if_splits)
  moreover have "(x, y, z) \<notin> ?B" using assms(3) by simp
  moreover have "finite ?B" by simp
  ultimately show ?thesis unfolding blockedCount_card by simp
qed

lemma blockedCount_emptyWorld: "blockedCount (emptyWorld nx ny nz) = 0"
proof -
  have "\<not> block (cell (emptyWorld nx ny nz) x y z)" if "inBounds (emptyWorld nx ny nz) x y z" for x y z
    using that by (simp add: empty_cell_def)
  then show ?thesis
    by (auto simp: blockedCount_def blockedCells_def set_allCells filter_empty_conv)
qed

lemma generator_counts:
  assumes frac: "0 \<le> targetBlockFrac cfg" and rnd: "\<And>i. 0 \<le> rnd i \<and> rnd i < 1"
  shows "case generateConnectedBlocks cfg rnd (generatorStart cfg) of (st, blocks, tries) \<Rightarrow>
           wellShaped st \<and> NX st = GEN_NX cfg \<and> NY st = GEN_NY cfg \<and> NZ st = GEN_NZ cfg
           \<and> blockedCount st = blocks \<and> int blocks \<le> targetBlocksOf cfg
           \<and> tries \<le> maxTries cfg \<and> (tries < maxTries cfg \<longrightarrow> int blocks = targetBlocksOf cfg)"
proof -
  define target where "target = targetBlocksOf cfg"
  define P where "P = (\<lambda>s. case s of (st, blocks, tries) \<Rightarrow>
           wellShaped st \<and> NX st = GEN_NX cfg \<and> NY st = GEN_NY cfg \<and> NZ st = GEN_NZ cfg
           \<and> blockedCount st = blocks \<and> int blocks \<le> target \<and> tries \<le> maxTries cfg)"
  have gen: "generateConnectedBlocks cfg rnd (generatorStart cfg)
               = genLoop cfg rnd target (generatorStart cfg, 0, 0)"
    by (simp add: generateConnectedBlocks_def generatorStart_def target_def targetBlocksOf_def)
  have "0 \<le> of_nat (GEN_NX cfg * GEN_NY cfg * GEN_NZ cfg) * targetBlockFrac cfg"
    using frac by simp
  then have t0: "0 \<le> target" unfolding target_def targetBlocksOf_def by simp
  have init: "P (generatorStart cfg, 0, 0)"
    using t0 by (simp add: P_def generatorStart_def blockedCount_emptyWorld)
  have step: "P (genStep cfg rnd s)" if "P s" "genCond cfg target s" for s
  proof -
    obtain st blocks tries where s: "s = (st, blocks, tries)" by (cases s)
    have inv: "wellShaped st" "NX st = GEN_NX cfg" "NY st = GEN_NY cfg" "NZ st = GEN_NZ cfg"
      "blockedCount st = blocks" "int blocks \<le> target"
      using that(1) by (simp_all add: P_def s)
    have c: "int blocks < target" "tries < maxTries cfg" using that(2) by (simp_all add: genCond_def s)
    have "0 < target" using c(1) by simp
    then have "0 < GEN_NX cfg * GEN_NY cfg * GEN_NZ cfg"
      unfolding target_def targetBlocksOf_def by (cases "GEN_NX cfg * GEN_NY cfg * GEN_NZ cfg = 0") auto
    then have pos: "0 < NX st" "0 < NY st" "0 < NZ st" using inv by simp_all
    show ?thesis
    proof (rule genStep_cases[where cfg = cfg and blocks = blocks and tries = tries,
                                OF rnd inv(1) pos])
      assume "genStep cfg rnd (st, blocks, tries) = (st, blocks, tries + 1)"
      then show ?thesis using inv c by (simp add: P_def s)
    next
      fix x y z
      assume "inBounds st x y z" "\<not> block (cell st x y z)"
        and "genStep cfg rnd (st, blocks, tries)
               = (upd st x y z (\<lambda>ce. ce\<lparr>block := True\<rparr>), blocks + 1, tries + 1)"
      then show ?thesis using inv c by (simp add: P_def s blockedCount_place)
    qed
  qed
  have "P (genLoop cfg rnd target (generatorStart cfg, 0, 0))
        \<and> \<not> genCond cfg target (genLoop cfg rnd target (generatorStart cfg, 0, 0))"
    using init step by (rule genLoop_rule)
  then show ?thesis
    unfolding gen target_def[symmetric]
    by (cases "genLoop cfg rnd target (generatorStart cfg, 0, 0)") (auto simp: P_def genCond_def)
qed

text \<open>
  C9. With \<open>Math.random()\<close> results in \<open>[0, 1)\<close>, the loop started on the
  all-open world of the configured dimensions always returns a result, and for a
  block fraction that is not negative the number of blocked cells of the final
  world is at most \<open>floor(targetBlockFrac * NX * NY * NZ)\<close> and is that target
  whenever the loop ended with \<open>tries\<close> below \<open>maxTries\<close>; ending at the cap
  below the target is an ordinary result. In particular this holds for the
  configuration \<open>CFG\<close> of the sketch.
\<close>

theorem C9_block_count_bounded_by_target:
  assumes "\<forall>i. 0 \<le> rnd i \<and> rnd i < 1"
  shows "(0 \<le> targetBlockFrac cfg \<longrightarrow>
            countsOK cfg (generateConnectedBlocks cfg rnd (generatorStart cfg)))
         \<and> countsOK CFG (generateConnectedBlocks CFG rnd (generatorStart CFG))"
proof -
  have "countsOK c (generateConnectedBlocks c rnd (generatorStart c))" if "0 \<le> targetBlockFrac c" for c
    using generator_counts[of c rnd] assms that unfolding countsOK_def by (auto split: prod.splits)
  moreover have "0 \<le> targetBlockFrac CFG" by (simp add: CFG_def)
  ultimately show ?thesis by blast
qed

lemma exampleRandom_range: "0 \<le> exampleRandom i \<and> exampleRandom i < 1"
proof -
  have "(i * 5) mod 7 < 7" by simp
  then have "(of_nat ((i * 5) mod 7) :: rat) < 7" by (metis of_nat_less_iff of_nat_numeral)
  then show ?thesis by (simp add: exampleRandom_def)
qed

theorem C9_witness:
  "0 \<le> targetBlockFrac exampleConfig
   \<and> (\<forall>i. 0 \<le> exampleRandom i \<and> exampleRandom i < 1)
   \<and> targetBlocksOf exampleConfig = 4
   \<and> snd (generateConnectedBlocks exampleConfig exampleRandom (generatorStart exampleConfig)) = (3, 6)
   \<and> blockedCount (fst (generateConnectedBlocks exampleConfig exampleRandom
        (generatorStart exampleConfig))) = 3"
proof -
  have f: "0 \<le> targetBlockFrac exampleConfig" by (simp add: exampleConfig_def)
  have r: "\<forall>i. 0 \<le> exampleRandom i \<and> exampleRandom i < 1" using exampleRandom_range by blast
  have t: "targetBlocksOf exampleConfig = 4" by code_simp
  have s: "snd (generateConnectedBlocks exampleConfig exampleRandom (generatorStart exampleConfig)) = (3, 6)"
    by code_simp
  obtain st blocks tries where
    g: "generateConnectedBlocks exampleConfig exampleRandom (generatorStart exampleConfig) = (st, blocks, tries)"
    by (cases "generateConnectedBlocks exampleConfig exampleRandom (generatorStart exampleConfig)")
  have "countsOK exampleConfig (generateConnectedBlocks exampleConfig exampleRandom (generatorStart exampleConfig))"
    using C9_block_count_bounded_by_target[OF r, of exampleConfig] f by blast
  then have "blockedCount st = blocks"
    by (simp add: g countsOK_def)
  then show ?thesis using f r t s by (simp add: g)
qed

section \<open>Slices\<close>

subsection \<open>Open cells of a slice and 4-connectivity\<close>

lemma set_sliceCells: "set (sliceCells U V) = {(u, v). 0 \<le> u \<and> u < int U \<and> 0 \<le> v \<and> v < int V}"
proof -
  have "\<And>x. 0 \<le> x \<Longrightarrow> x < int n \<Longrightarrow> x \<in> int ` {0..<n}" for n
    by (metis atLeastLessThan_iff image_eqI nat_less_iff zero_le int_nat_eq)
  then show ?thesis
    unfolding sliceCells_def by (auto simp: image_iff)
qed

lemma distinct_sliceCells: "distinct (sliceCells U V)"
proof -
  have "sliceCells U V = map (\<lambda>(v, u). (int u, int v)) (List.product [0..<V] [0..<U])"
    unfolding sliceCells_def List.product_concat_map by (simp add: map_concat comp_def)
  moreover have "distinct (map (\<lambda>(v, u). (int u, int v)) (List.product [0..<V] [0..<U]))"
    by (auto simp: distinct_map distinct_product inj_on_def)
  ultimately show ?thesis by simp
qed

lemma finite_sliceOpen [simp]: "finite (sliceOpen U V blk)"
proof -
  have "sliceOpen U V blk \<subseteq> set (sliceCells U V)"
    by (auto simp: sliceOpen_def set_sliceCells)
  then show ?thesis by (rule finite_subset) simp
qed

lemma openCells_filter:
  "set (filter (\<lambda>(u, v). \<not> blk u v) (sliceCells U V)) = sliceOpen U V blk"
  by (auto simp: sliceOpen_def set_sliceCells)

lemma card_sliceOpen:
  "card (sliceOpen U V blk) = length (filter (\<lambda>(u, v). \<not> blk u v) (sliceCells U V))"
proof -
  have "distinct (filter (\<lambda>(u, v). \<not> blk u v) (sliceCells U V))"
    using distinct_sliceCells by (rule distinct_filter)
  then have "card (set (filter (\<lambda>(u, v). \<not> blk u v) (sliceCells U V)))
               = length (filter (\<lambda>(u, v). \<not> blk u v) (sliceCells U V))"
    by (rule distinct_card)
  then show ?thesis unfolding openCells_filter .
qed

lemma foldl_count:
  "foldl (\<lambda>c (u, v). if \<not> blk u v then c + 1 else c) k ps
     = k + length (filter (\<lambda>(u, v). \<not> blk u v) ps)"
  by (induction ps arbitrary: k) (auto split: prod.splits)

lemma sliceOpenCount_card: "sliceOpenCount U V blk = card (sliceOpen U V blk)"
  by (simp add: sliceOpenCount_def foldl_count card_sliceOpen)

lemma foldl_scan:
  "foldl (\<lambda>(start, opn) (u, v).
              if \<not> blk u v then ((if start = None then Some (u, v) else start), opn + 1)
              else (start, opn)) (s0, k) ps
     = ((if s0 = None then (case filter (\<lambda>(u, v). \<not> blk u v) ps of [] \<Rightarrow> None | p # _ \<Rightarrow> Some p)
         else s0),
        k + length (filter (\<lambda>(u, v). \<not> blk u v) ps))"
  by (induction ps arbitrary: s0 k) (auto split: prod.splits list.splits)

lemma scanOpen_result:
  "scanOpen U V blk =
     ((case filter (\<lambda>(u, v). \<not> blk u v) (sliceCells U V) of [] \<Rightarrow> None | p # _ \<Rightarrow> Some p),
      card (sliceOpen U V blk))"
  by (simp add: scanOpen_def foldl_scan card_sliceOpen)

lemma scanOpen_start:
  assumes "scanOpen U V blk = (start, opn)" "opn \<noteq> 0"
  shows "opn = card (sliceOpen U V blk) \<and> (\<exists>s. start = Some s \<and> s \<in> sliceOpen U V blk)"
proof -
  have opn: "opn = card (sliceOpen U V blk)"
    and st: "start = (case filter (\<lambda>(u, v). \<not> blk u v) (sliceCells U V) of [] \<Rightarrow> None | p # _ \<Rightarrow> Some p)"
    using assms(1) by (simp_all add: scanOpen_result)
  have "filter (\<lambda>(u, v). \<not> blk u v) (sliceCells U V) \<noteq> []"
    using assms(2) opn by (auto simp: card_sliceOpen)
  then obtain p ps where f: "filter (\<lambda>(u, v). \<not> blk u v) (sliceCells U V) = p # ps"
    by (cases "filter (\<lambda>(u, v). \<not> blk u v) (sliceCells U V)") auto
  then have "p \<in> set (filter (\<lambda>(u, v). \<not> blk u v) (sliceCells U V))" by simp
  then have "p \<in> sliceOpen U V blk" unfolding openCells_filter .
  then show ?thesis using opn st f by simp
qed

subsection \<open>The flood fill only reaches connected cells\<close>

lemma finite_reachable [simp]: "finite (reachable U V blk s)"
  by (rule finite_subset[of _ "sliceOpen U V blk"]) (auto simp: reachable_def)

lemma adj4_neigh: "d \<in> set neigh \<Longrightarrow> adj4 (cu, cv) (cu + fst d, cv + snd d)"
  by (auto simp: neigh_def adj4_def)

lemma visit_inv:
  assumes inv: "floodInv U V blk s t" and c: "c \<in> reachable U V blk s" and d: "d \<in> set neigh"
  shows "floodInv U V blk s (visit U V blk c t d)"
proof -
  obtain vis seen stack where t: "t = (vis, seen, stack)" by (cases t)
  obtain cu cv where cc: "c = (cu, cv)" by (cases c)
  obtain du dv where dd: "d = (du, dv)" by (cases d)
  let ?nu = "cu + du" and ?nv = "cv + dv"
  let ?idx = "nat (?nv * int U + ?nu)"
  have fin: "finite vis" and seen: "seen = card vis"
    and sub: "vis \<subseteq> cellIndex U ` reachable U V blk s"
    and stk: "set stack \<subseteq> reachable U V blk s"
    using inv by (simp_all add: floodInv_def t)
  show ?thesis
  proof (cases "?nu < 0 \<or> ?nu \<ge> int U \<or> ?nv < 0 \<or> ?nv \<ge> int V \<or> ?idx \<in> vis \<or> blk ?nu ?nv")
    case True
    then have "visit U V blk c t d = t" unfolding t cc dd by (auto simp: Let_def)
    then show ?thesis using inv by simp
  next
    case False
    then have v: "visit U V blk c t d = (insert ?idx vis, seen + 1, (?nu, ?nv) # stack)"
      unfolding t cc dd by (simp add: Let_def)
    have nopen: "(?nu, ?nv) \<in> sliceOpen U V blk" using False by (simp add: sliceOpen_def)
    have copen: "c \<in> sliceOpen U V blk" and cr: "(s, c) \<in> (stepRel (sliceOpen U V blk))\<^sup>*"
      using c by (simp_all add: reachable_def)
    have "adj4 c (?nu, ?nv)" using adj4_neigh[OF d, of cu cv] by (simp add: cc dd)
    then have "(c, (?nu, ?nv)) \<in> stepRel (sliceOpen U V blk)"
      using copen nopen by (simp add: stepRel_def)
    with cr have "(s, (?nu, ?nv)) \<in> (stepRel (sliceOpen U V blk))\<^sup>*"
      by (rule rtrancl_into_rtrancl)
    then have nr: "(?nu, ?nv) \<in> reachable U V blk s" using nopen by (simp add: reachable_def)
    have "?idx = cellIndex U (?nu, ?nv)" by (simp add: cellIndex_def)
    then have "?idx \<in> cellIndex U ` reachable U V blk s" using nr by blast
    moreover have "card (insert ?idx vis) = seen + 1" using False fin seen by simp
    ultimately show ?thesis
      unfolding v floodInv_def using fin sub stk nr by simp
  qed
qed

lemma foldl_visit_inv:
  assumes "floodInv U V blk s t" "c \<in> reachable U V blk s" "set ds \<subseteq> set neigh"
  shows "floodInv U V blk s (foldl (visit U V blk c) t ds)"
  using assms
proof (induction ds arbitrary: t)
  case Nil
  then show ?case by simp
next
  case (Cons d ds)
  have "floodInv U V blk s (visit U V blk c t d)"
    using Cons.prems by (intro visit_inv) auto
  then show ?case using Cons.prems Cons.IH by simp
qed

lemma flood_le_reachable:
  assumes "floodInv U V blk s t"
  shows "flood U V blk t \<le> card (reachable U V blk s)"
  using assms
proof (induction U V blk t rule: flood.induct)
  case (1 U V blk vis seen)
  then have "seen = card vis" "vis \<subseteq> cellIndex U ` reachable U V blk s"
    by (simp_all add: floodInv_def)
  then have "seen \<le> card (cellIndex U ` reachable U V blk s)"
    by (simp add: card_mono)
  also have "\<dots> \<le> card (reachable U V blk s)" by (rule card_image_le) simp
  finally show ?case by simp
next
  case (2 U V blk vis seen c stack)
  have c: "c \<in> reachable U V blk s" and inv: "floodInv U V blk s (vis, seen, stack)"
    using 2(2) by (simp_all add: floodInv_def)
  have "floodInv U V blk s (foldl (visit U V blk c) (vis, seen, stack) neigh)"
    using inv c by (rule foldl_visit_inv) simp
  then show ?case using 2(1) by simp
qed

lemma sym_stepRel: "sym (stepRel S)"
  by (auto simp: sym_def stepRel_def adj4_def)

text \<open>Soundness of the connectivity check: a slice it accepts is one component.\<close>

lemma isConnected2D_sound:
  assumes "isConnected2D U V blk"
  shows "connected4 (sliceOpen U V blk)"
proof -
  let ?O = "sliceOpen U V blk"
  obtain start opn where sc: "scanOpen U V blk = (start, opn)" by (cases "scanOpen U V blk")
  have opn0: "opn \<noteq> 0" using assms by (auto simp: isConnected2D_def sc split: if_splits)
  then obtain s where opn: "opn = card ?O" and start: "start = Some s" and s: "s \<in> ?O"
    using scanOpen_start[OF sc] by blast
  obtain su sv where ss: "s = (su, sv)" by (cases s)
  have fl: "flood U V blk ({nat (sv * int U + su)}, 1, [(su, sv)]) = opn"
    using assms opn0 by (simp add: isConnected2D_def sc start ss)
  have sr: "s \<in> reachable U V blk s" using s by (simp add: reachable_def)
  have "floodInv U V blk s ({nat (sv * int U + su)}, 1, [(su, sv)])"
    unfolding floodInv_def using sr by (auto simp: ss cellIndex_def image_iff intro!: bexI[of _ "(su, sv)"])
  then have "opn \<le> card (reachable U V blk s)"
    using flood_le_reachable fl by metis
  moreover have "reachable U V blk s \<subseteq> ?O" by (auto simp: reachable_def)
  ultimately have "reachable U V blk s = ?O"
    unfolding opn by (intro card_seteq) simp_all
  then have from_s: "(s, a) \<in> (stepRel ?O)\<^sup>*" if "a \<in> ?O" for a
    using that by (auto simp: reachable_def)
  have "(a, b) \<in> (stepRel ?O)\<^sup>*" if "a \<in> ?O" "b \<in> ?O" for a b
  proof -
    have "(a, s) \<in> (stepRel ?O)\<^sup>*"
      using from_s[OF that(1)] sym_rtrancl[OF sym_stepRel] by (meson symD)
    then show ?thesis using from_s[OF that(2)] by (rule rtrancl_trans)
  qed
  then show ?thesis using s by (auto simp: connected4_def)
qed

subsection \<open>A slice without blocks is one component\<close>

lemma sliceOpen_cong:
  assumes "\<And>u v. 0 \<le> u \<Longrightarrow> 0 \<le> v \<Longrightarrow> blk u v = blk' u v"
  shows "sliceOpen U V blk = sliceOpen U V blk'"
  using assms by (auto simp: sliceOpen_def)

lemma length_sliceCells: "length (sliceCells U V) = U * V"
proof -
  have "sliceCells U V = map (\<lambda>(v, u). (int u, int v)) (List.product [0..<V] [0..<U])"
    unfolding sliceCells_def List.product_concat_map by (simp add: map_concat comp_def)
  then show ?thesis by (simp add: mult.commute)
qed

lemma card_open_slice:
  assumes "\<And>u v. 0 \<le> u \<Longrightarrow> u < int U \<Longrightarrow> 0 \<le> v \<Longrightarrow> v < int V \<Longrightarrow> \<not> blk u v"
  shows "card (sliceOpen U V blk) = U * V"
proof -
  have "filter (\<lambda>(u, v). \<not> blk u v) (sliceCells U V) = sliceCells U V"
    using assms by (auto simp: filter_id_conv set_sliceCells)
  then show ?thesis by (simp add: card_sliceOpen length_sliceCells)
qed

lemma open_slice_connected:
  assumes free: "\<And>u v. 0 \<le> u \<Longrightarrow> u < int U \<Longrightarrow> 0 \<le> v \<Longrightarrow> v < int V \<Longrightarrow> \<not> blk u v"
    and pos: "0 < U" "0 < V"
  shows "connected4 (sliceOpen U V blk)"
proof -
  let ?O = "sliceOpen U V blk"
  have mem: "(u, v) \<in> ?O \<longleftrightarrow> 0 \<le> u \<and> u < int U \<and> 0 \<le> v \<and> v < int V" for u v
    using free by (auto simp: sliceOpen_def)
  have row: "((0, 0), (int u, 0)) \<in> (stepRel ?O)\<^sup>*" if "u < U" for u
    using that
  proof (induction u)
    case 0
    show ?case by simp
  next
    case (Suc u)
    have "((int u, 0), (int (Suc u), 0)) \<in> stepRel ?O"
      using Suc.prems pos by (simp add: stepRel_def mem adj4_def)
    moreover have "((0, 0), (int u, 0)) \<in> (stepRel ?O)\<^sup>*" using Suc by simp
    ultimately show ?case by (meson rtrancl_into_rtrancl)
  qed
  have col: "((int u, 0), (int u, int v)) \<in> (stepRel ?O)\<^sup>*" if "u < U" "v < V" for u v
    using that(2)
  proof (induction v)
    case 0
    show ?case by simp
  next
    case (Suc v)
    have "((int u, int v), (int u, int (Suc v))) \<in> stepRel ?O"
      using Suc.prems that(1) by (simp add: stepRel_def mem adj4_def)
    moreover have "((int u, 0), (int u, int v)) \<in> (stepRel ?O)\<^sup>*" using Suc by simp
    ultimately show ?case by (meson rtrancl_into_rtrancl)
  qed
  have from_origin: "((0, 0), a) \<in> (stepRel ?O)\<^sup>*" if ain: "a \<in> ?O" for a
  proof -
    obtain u v where a: "a = (int u, int v)" and uv: "u < U" "v < V"
    proof -
      obtain p q where pq: "a = (p, q)" by (cases a)
      then have "0 \<le> p" "p < int U" "0 \<le> q" "q < int V" using ain by (simp_all add: mem)
      then have "a = (int (nat p), int (nat q))" "nat p < U" "nat q < V" by (simp_all add: pq)
      then show thesis by (rule that)
    qed
    show ?thesis unfolding a using row[OF uv(1)] col[OF uv] by (rule rtrancl_trans)
  qed
  have "(a, b) \<in> (stepRel ?O)\<^sup>*" if "a \<in> ?O" "b \<in> ?O" for a b
  proof -
    have "(a, (0, 0)) \<in> (stepRel ?O)\<^sup>*"
      using from_origin[OF that(1)] sym_rtrancl[OF sym_stepRel] by (meson symD)
    then show ?thesis using from_origin[OF that(2)] by (rule rtrancl_trans)
  qed
  moreover have "(0, 0) \<in> ?O" using pos by (simp add: mem)
  ultimately show ?thesis by (auto simp: connected4_def)
qed

subsection \<open>The slices of the world\<close>

lemma list_all_upt_int:
  assumes "list_all (\<lambda>k. P (int k)) [0..<n]" "0 \<le> i" "i < int n"
  shows "P i"
proof -
  have "nat i \<in> set [0..<n]" using assms(2,3) by simp
  then have "P (int (nat i))" using assms(1) unfolding list_all_iff by blast
  then show ?thesis using assms(2) by simp
qed

lemma allSlicesConnected_sound:
  assumes "allSlicesConnected st"
  shows "(\<forall>z. 0 \<le> z \<and> z < int (NZ st) \<longrightarrow> singleComponentXY st z)
       \<and> (\<forall>y. 0 \<le> y \<and> y < int (NY st) \<longrightarrow> singleComponentXZ st y)
       \<and> (\<forall>x. 0 \<le> x \<and> x < int (NX st) \<longrightarrow> singleComponentYZ st x)"
proof -
  have a: "list_all (\<lambda>z. isConnectedXY st (int z)) [0..<NZ st]"
    and b: "list_all (\<lambda>y. isConnectedXZ st (int y)) [0..<NY st]"
    and c: "list_all (\<lambda>x. isConnectedYZ st (int x)) [0..<NX st]"
    using assms by (simp_all add: allSlicesConnected_def)
  have "singleComponentXY st z" if "0 \<le> z" "z < int (NZ st)" for z
    using list_all_upt_int[OF a that] unfolding isConnectedXY_def singleComponentXY_def
    by (rule isConnected2D_sound)
  moreover have "singleComponentXZ st y" if "0 \<le> y" "y < int (NY st)" for y
    using list_all_upt_int[OF b that] unfolding isConnectedXZ_def singleComponentXZ_def
    by (rule isConnected2D_sound)
  moreover have "singleComponentYZ st x" if "0 \<le> x" "x < int (NX st)" for x
    using list_all_upt_int[OF c that] unfolding isConnectedYZ_def singleComponentYZ_def
    by (rule isConnected2D_sound)
  ultimately show ?thesis by blast
qed

lemma counts_other_slices:
  assumes ws: "wellShaped st" and inb: "inBounds st x y z"
  shows "0 \<le> z' \<Longrightarrow> z' \<noteq> z \<Longrightarrow> sliceOpenCountXY (upd st x y z f) z' = sliceOpenCountXY st z'"
    and "0 \<le> y' \<Longrightarrow> y' \<noteq> y \<Longrightarrow> sliceOpenCountXZ (upd st x y z f) y' = sliceOpenCountXZ st y'"
    and "0 \<le> x' \<Longrightarrow> x' \<noteq> x \<Longrightarrow> sliceOpenCountYZ (upd st x y z f) x' = sliceOpenCountYZ st x'"
proof -
  show "sliceOpenCountXY (upd st x y z f) z' = sliceOpenCountXY st z'" if "0 \<le> z'" "z' \<noteq> z"
    unfolding sliceOpenCountXY_def sliceOpenCount_card upd_fields
    by (rule arg_cong[where f = card], rule sliceOpen_cong) (simp add: cell_upd[OF ws inb] that)
  show "sliceOpenCountXZ (upd st x y z f) y' = sliceOpenCountXZ st y'" if "0 \<le> y'" "y' \<noteq> y"
    unfolding sliceOpenCountXZ_def sliceOpenCount_card upd_fields
    by (rule arg_cong[where f = card], rule sliceOpen_cong) (simp add: cell_upd[OF ws inb] that)
  show "sliceOpenCountYZ (upd st x y z f) x' = sliceOpenCountYZ st x'" if "0 \<le> x'" "x' \<noteq> x"
    unfolding sliceOpenCountYZ_def sliceOpenCount_card upd_fields
    by (rule arg_cong[where f = card], rule sliceOpen_cong) (simp add: cell_upd[OF ws inb] that)
qed

lemma slicesOK_placed:
  assumes ws: "wellShaped st" and inb: "inBounds st x y z" and ok: "slicesOK m st"
    and pl: "placementOK cfg (upd st x y z f) x y z" and m: "m = minOpenPerSlice cfg"
  shows "slicesOK m (upd st x y z f)"
proof -
  let ?t = "upd st x y z f"
  have conn: "(\<forall>z. 0 \<le> z \<and> z < int (NZ ?t) \<longrightarrow> singleComponentXY ?t z)
       \<and> (\<forall>y. 0 \<le> y \<and> y < int (NY ?t) \<longrightarrow> singleComponentXZ ?t y)
       \<and> (\<forall>x. 0 \<le> x \<and> x < int (NX ?t) \<longrightarrow> singleComponentYZ ?t x)"
    using pl by (intro allSlicesConnected_sound) (simp add: placementOK_def)
  have cz: "m \<le> sliceOpenCountXY ?t z'" if "0 \<le> z'" "z' < int (NZ st)" for z'
  proof (cases "z' = z")
    case True
    then show ?thesis using pl by (simp add: placementOK_def m)
  next
    case False
    then show ?thesis using counts_other_slices(1)[OF ws inb that(1)] ok that
      by (simp add: slicesOK_def)
  qed
  have cy: "m \<le> sliceOpenCountXZ ?t y'" if "0 \<le> y'" "y' < int (NY st)" for y'
  proof (cases "y' = y")
    case True
    then show ?thesis using pl by (simp add: placementOK_def m)
  next
    case False
    then show ?thesis using counts_other_slices(2)[OF ws inb that(1)] ok that
      by (simp add: slicesOK_def)
  qed
  have cx: "m \<le> sliceOpenCountYZ ?t x'" if "0 \<le> x'" "x' < int (NX st)" for x'
  proof (cases "x' = x")
    case True
    then show ?thesis using pl by (simp add: placementOK_def m)
  next
    case False
    then show ?thesis using counts_other_slices(3)[OF ws inb that(1)] ok that
      by (simp add: slicesOK_def)
  qed
  show ?thesis
    unfolding slicesOK_def using conn cz cy cx by simp
qed

lemma slicesOK_emptyWorld:
  assumes "0 < nx" "0 < ny" "0 < nz" "m \<le> nx * ny" "m \<le> nx * nz" "m \<le> ny * nz"
  shows "slicesOK m (emptyWorld nx ny nz)"
proof -
  let ?s = "emptyWorld nx ny nz"
  have free: "\<not> block (cell ?s x y z)" if "inBounds ?s x y z" for x y z
    using that by (simp add: empty_cell_def)
  have xy: "m \<le> sliceOpenCountXY ?s z \<and> singleComponentXY ?s z" if "0 \<le> z" "z < int nz" for z
    unfolding sliceOpenCountXY_def singleComponentXY_def sliceOpenCount_card
    using assms that
    by (subst card_open_slice; (intro conjI open_slice_connected)?;
        simp add: free inBounds_def empty_cell_def)
  have xz: "m \<le> sliceOpenCountXZ ?s y \<and> singleComponentXZ ?s y" if "0 \<le> y" "y < int ny" for y
    unfolding sliceOpenCountXZ_def singleComponentXZ_def sliceOpenCount_card
    using assms that
    by (subst card_open_slice; (intro conjI open_slice_connected)?;
        simp add: free inBounds_def empty_cell_def)
  have yz: "m \<le> sliceOpenCountYZ ?s x \<and> singleComponentYZ ?s x" if "0 \<le> x" "x < int nx" for x
    unfolding sliceOpenCountYZ_def singleComponentYZ_def sliceOpenCount_card
    using assms that
    by (subst card_open_slice; (intro conjI open_slice_connected)?;
        simp add: free inBounds_def empty_cell_def)
  show ?thesis unfolding slicesOK_def using xy xz yz by simp
qed

lemma generator_slices:
  assumes rnd: "\<And>i. 0 \<le> rnd i \<and> rnd i < 1" and start: "startMeetsMinimum cfg"
  shows "slicesOK (minOpenPerSlice cfg) (fst (generateConnectedBlocks cfg rnd (generatorStart cfg)))"
proof -
  define target where "target = \<lfloor>of_nat (GEN_NX cfg * GEN_NY cfg * GEN_NZ cfg) * targetBlockFrac cfg\<rfloor>"
  define P :: "state \<times> nat \<times> nat \<Rightarrow> bool" where "P = (\<lambda>s. case s of (st, blocks, tries) \<Rightarrow>
           wellShaped st \<and> NX st = GEN_NX cfg \<and> NY st = GEN_NY cfg \<and> NZ st = GEN_NZ cfg
           \<and> slicesOK (minOpenPerSlice cfg) st)"
  have gen: "generateConnectedBlocks cfg rnd (generatorStart cfg)
               = genLoop cfg rnd target (generatorStart cfg, 0, 0)"
    by (simp add: generateConnectedBlocks_def generatorStart_def target_def)
  have init: "P (generatorStart cfg, 0, 0)"
    using start by (simp add: P_def generatorStart_def startMeetsMinimum_def slicesOK_emptyWorld)
  have step: "P (genStep cfg rnd s)" if "P s" "genCond cfg target s" for s
  proof -
    obtain st blocks tries where s: "s = (st, blocks, tries)" by (cases s)
    have inv: "wellShaped st" "NX st = GEN_NX cfg" "NY st = GEN_NY cfg" "NZ st = GEN_NZ cfg"
      "slicesOK (minOpenPerSlice cfg) st"
      using that(1) by (simp_all add: P_def s)
    have pos: "0 < NX st" "0 < NY st" "0 < NZ st"
      using start inv by (simp_all add: startMeetsMinimum_def)
    show ?thesis
    proof (rule genStep_cases[where cfg = cfg and blocks = blocks and tries = tries,
                                OF rnd inv(1) pos])
      assume "genStep cfg rnd (st, blocks, tries) = (st, blocks, tries + 1)"
      then show ?thesis using inv by (simp add: P_def s)
    next
      fix x y z
      assume inb: "inBounds st x y z"
        and pl: "placementOK cfg (upd st x y z (\<lambda>ce. ce\<lparr>block := True\<rparr>)) x y z"
        and g: "genStep cfg rnd (st, blocks, tries)
               = (upd st x y z (\<lambda>ce. ce\<lparr>block := True\<rparr>), blocks + 1, tries + 1)"
      have "slicesOK (minOpenPerSlice cfg) (upd st x y z (\<lambda>ce. ce\<lparr>block := True\<rparr>))"
        using inv(1) inb inv(5) pl by (rule slicesOK_placed) simp
      then show ?thesis using inv by (simp add: P_def s g)
    qed
  qed
  have "P (genLoop cfg rnd target (generatorStart cfg, 0, 0))
        \<and> \<not> genCond cfg target (genLoop cfg rnd target (generatorStart cfg, 0, 0))"
    using init step by (rule genLoop_rule)
  then show ?thesis
    unfolding gen by (cases "genLoop cfg rnd target (generatorStart cfg, 0, 0)") (simp add: P_def)
qed

lemma CFG_startMeetsMinimum: "startMeetsMinimum CFG"
  by (simp add: startMeetsMinimum_def CFG_def)

section \<open>Properties of the generated world\<close>



section \<open>Writing the letters of Format A words\<close>

lemma runCell_0 [simp]: "runCell d p 0 = p"
  by (cases p) (simp add: runCell_def)

lemma runCell_Suc: "runCell d p (Suc i) = runCell d (fwdCell d p) i"
  by (cases p) (simp add: runCell_def fwdCell_def algebra_simps)

lemma runCell_fwd_neq: "runCell d (fwdCell d p) i \<noteq> p"
proof -
  obtain x y z where p: "p = (x, y, z)" by (cases p)
  show ?thesis by (cases d) (auto simp: p runCell_def fwdCell_def)
qed

lemma runCell_inj: "runCell d p i = runCell d p j \<Longrightarrow> i = j"
proof -
  obtain x y z where p: "p = (x, y, z)" by (cases p)
  show "runCell d p i = runCell d p j \<Longrightarrow> i = j"
    by (cases d) (auto simp: p runCell_def)
qed

lemma conflictsOf_cong:
  assumes "\<And>i. i < length cs \<Longrightarrow> sol (cellAt s (runCell (w_dir w) p i)) = sol (cellAt t (runCell (w_dir w) p i))"
  shows "conflictsOf s w cs p = conflictsOf t w cs p"
  using assms
proof (induction cs arbitrary: p)
  case Nil
  show ?case by simp
next
  case (Cons c cs)
  have 0: "sol (cellAt s p) = sol (cellAt t p)" using Cons.prems[of 0] by simp
  have "conflictsOf s w cs (fwdCell (w_dir w) p) = conflictsOf t w cs (fwdCell (w_dir w) p)"
  proof (rule Cons.IH)
    fix i assume "i < length cs"
    then show "sol (cellAt s (runCell (w_dir w) (fwdCell (w_dir w) p) i))
             = sol (cellAt t (runCell (w_dir w) (fwdCell (w_dir w) p) i))"
      using Cons.prems[of "Suc i"] by (simp add: runCell_Suc)
  qed
  then show ?case using 0 by simp
qed

lemma cellAt_simps [simp]:
  "cellAt (logErr e st) = cellAt st" "cellAt (st\<lparr>errlog := l\<rparr>) = cellAt st"
  by (simp_all add: cellAt_def fun_eq_iff)

lemma conflictsOf_quiet:
  assumes "\<And>i. i < length cs \<Longrightarrow> sol (cellAt s (runCell (w_dir w) p i)) = []
                 \<or> sol (cellAt s (runCell (w_dir w) p i)) = [cs ! i]"
  shows "conflictsOf s w cs p = []"
  using assms
proof (induction cs arbitrary: p)
  case Nil
  show ?case by simp
next
  case (Cons c cs)
  have 0: "sol (cellAt s p) = [] \<or> sol (cellAt s p) = [c]" using Cons.prems[of 0] by simp
  have "conflictsOf s w cs (fwdCell (w_dir w) p) = []"
  proof (rule Cons.IH)
    fix i assume "i < length cs"
    then show "sol (cellAt s (runCell (w_dir w) (fwdCell (w_dir w) p) i)) = []
                 \<or> sol (cellAt s (runCell (w_dir w) (fwdCell (w_dir w) p) i)) = [cs ! i]"
      using Cons.prems[of "Suc i"] by (simp add: runCell_Suc)
  qed
  then show ?case using 0 by auto
qed

lemma conflictsOf_one:
  assumes "j < length cs"
    and "sol (cellAt s (runCell (w_dir w) p j)) = had" "had \<noteq> []" "had \<noteq> [cs ! j]"
    and "\<And>i. i < length cs \<Longrightarrow> i \<noteq> j \<Longrightarrow> sol (cellAt s (runCell (w_dir w) p i)) = []
                 \<or> sol (cellAt s (runCell (w_dir w) p i)) = [cs ! i]"
  shows "conflictsOf s w cs p = [CrossingConflict w (runCell (w_dir w) p j) had [cs ! j]]"
  using assms
proof (induction cs arbitrary: p j)
  case Nil
  then show ?case by simp
next
  case (Cons c cs)
  show ?case
  proof (cases j)
    case 0
    have "conflictsOf s w cs (fwdCell (w_dir w) p) = []"
    proof (rule conflictsOf_quiet)
      fix i assume "i < length cs"
      then show "sol (cellAt s (runCell (w_dir w) (fwdCell (w_dir w) p) i)) = []
                 \<or> sol (cellAt s (runCell (w_dir w) (fwdCell (w_dir w) p) i)) = [cs ! i]"
        using Cons.prems(5)[of "Suc i"] 0 by (simp add: runCell_Suc)
    qed
    then show ?thesis using Cons.prems(2,3,4) 0 by simp
  next
    case (Suc j')
    have h0: "sol (cellAt s p) = [] \<or> sol (cellAt s p) = [c]" using Cons.prems(5)[of 0] Suc by simp
    have "conflictsOf s w cs (fwdCell (w_dir w) p)
            = [CrossingConflict w (runCell (w_dir w) (fwdCell (w_dir w) p) j') had [cs ! j']]"
    proof (rule Cons.IH)
      show "j' < length cs" using Cons.prems(1) Suc by simp
      show "sol (cellAt s (runCell (w_dir w) (fwdCell (w_dir w) p) j')) = had"
        using Cons.prems(2) Suc by (simp add: runCell_Suc)
      show "had \<noteq> []" by (rule Cons.prems(3))
      show "had \<noteq> [cs ! j']" using Cons.prems(4) Suc by simp
      fix i assume "i < length cs" "i \<noteq> j'"
      then show "sol (cellAt s (runCell (w_dir w) (fwdCell (w_dir w) p) i)) = []
                 \<or> sol (cellAt s (runCell (w_dir w) (fwdCell (w_dir w) p) i)) = [cs ! i]"
        using Cons.prems(5)[of "Suc i"] Suc by (simp add: runCell_Suc)
    qed
    then show ?thesis using h0 Suc by (auto simp: runCell_Suc)
  qed
qed

lemma openAt_nonneg: "openAt st (a, b, c) \<Longrightarrow> 0 \<le> a \<and> 0 \<le> b \<and> 0 \<le> c"
  by (simp add: openAt_def inBounds_def)

lemma openAt_keeps: "keeps block s t \<Longrightarrow> openAt t p = openAt s p"
  by (cases p) (auto simp: openAt_def keeps_def inBounds_def)

lemma stopAt_simps [simp]: "stopAt (logErr e st) = stopAt st"
  by (simp add: stopAt_def fun_eq_iff)

lemma stopAt_keeps: "keeps g s t \<Longrightarrow> stopAt t = stopAt s"
  by (simp add: stopAt_def fun_eq_iff keeps_inBounds)

text \<open>
  What the loop over the letters of a word does when the first \<open>n\<close> cells of its
  walk are open and the next one, if the word has one, is not: it reports the
  conflicts of the first \<open>n\<close> letters with the letters that were there and then the
  diagnostic that stops it, puts each of the first \<open>n\<close> letters into its cell, and
  changes no other cell's letter.
\<close>

lemma writeLetters_general:
  assumes "wellShaped st" and "n \<le> length cs"
    and "\<And>i. i < n \<Longrightarrow> openAt st (runCell (w_dir w) (x, y, z) i)"
    and "n < length cs \<Longrightarrow> \<not> openAt st (runCell (w_dir w) (x, y, z) n)"
  shows "keeps block st (writeLetters w cs x y z st)
    \<and> errlog (writeLetters w cs x y z st)
        = errlog st @ conflictsOf st w (take n cs) (x, y, z)
            @ (if n < length cs then [stopAt st w (runCell (w_dir w) (x, y, z) n)] else [])
    \<and> (\<forall>i < n. sol (cellAt (writeLetters w cs x y z st) (runCell (w_dir w) (x, y, z) i)) = [cs ! i])
    \<and> (\<forall>a b c. 0 \<le> a \<and> 0 \<le> b \<and> 0 \<le> c \<and> (\<forall>i < n. (a, b, c) \<noteq> runCell (w_dir w) (x, y, z) i)
          \<longrightarrow> sol (cellAt (writeLetters w cs x y z st) (a, b, c)) = sol (cellAt st (a, b, c)))"
  using assms
proof (induction cs arbitrary: n x y z st)
  case Nil
  then show ?case by (simp add: keeps_refl)
next
  case (Cons l cs)
  let ?d = "w_dir w"
  let ?p = "(x, y, z)"
  let ?q = "(x + dx ?d, y + dy ?d, z + dz ?d)"
  show ?case
  proof (cases n)
    case 0
    have nop: "\<not> openAt st ?p" using Cons.prems(4) 0 by simp
    have wl: "writeLetters w (l # cs) x y z st = logErr (stopAt st w ?p) st"
      using nop by (auto simp: openAt_def stopAt_def)
    show ?thesis unfolding wl using Cons.prems(1) 0 by (simp add: keeps_refl)
  next
    case (Suc m)
    have op0: "openAt st ?p" using Cons.prems(3)[of 0] Suc by simp
    then have inb: "inBounds st x y z" and free: "\<not> block (cell st x y z)"
      by (simp_all add: openAt_def)
    have nonneg: "0 \<le> x" "0 \<le> y" "0 \<le> z" using inb by (simp_all add: inBounds_def)
    have mle: "m \<le> length cs" using Cons.prems(2) Suc by simp
    define had where "had = sol (cell st x y z)"
    define s1 where "s1 = (if had \<noteq> [] \<and> had \<noteq> [l]
                    then logErr (CrossingConflict w ?p had [l]) st else st)"
    define s2 where "s2 = upd s1 x y z (\<lambda>ce. ce\<lparr>sol := [l]\<rparr>)"
    define t where "t = writeLetters w cs (x + dx ?d) (y + dy ?d) (z + dz ?d) s2"
    have unfold: "writeLetters w (l # cs) x y z st = t"
      using inb free by (simp add: t_def s2_def s1_def had_def Let_def)
    have ws1: "wellShaped s1" and inb1: "inBounds s1 = inBounds st" and cell1: "cell s1 = cell st"
      using Cons.prems(1) by (simp_all add: s1_def)
    have ws2: "wellShaped s2" using ws1 by (simp add: s2_def)
    have k12: "keeps block st s2"
    proof -
      have "keeps block st s1" using Cons.prems(1) by (simp add: s1_def keeps_refl)
      moreover have "keeps block s1 s2" unfolding s2_def using ws1 inb inb1
        by (intro keeps_upd) simp_all
      ultimately show ?thesis by (rule keeps_trans)
    qed
    have cell2: "cellAt s2 (a, b, c) = (if (a, b, c) = ?p then (cell st x y z)\<lparr>sol := [l]\<rparr> else cellAt st (a, b, c))"
      if "0 \<le> a" "0 \<le> b" "0 \<le> c" for a b c
      unfolding s2_def cellAt_def using cell_upd[OF ws1, of x y z a b c] inb inb1 that cell1 by simp
    have q: "?q = fwdCell ?d ?p" by (simp add: fwdCell_def)
    have later: "runCell ?d ?q i = runCell ?d ?p (Suc i)" for i
      unfolding q by (simp add: runCell_Suc)
    have open2: "openAt s2 (runCell ?d ?q i)" if "i < m" for i
      using Cons.prems(3)[of "Suc i"] that Suc openAt_keeps[OF k12] unfolding later by simp
    have stop2: "\<not> openAt s2 (runCell ?d ?q m)" if "m < length cs"
      using Cons.prems(4) that Suc openAt_keeps[OF k12] unfolding later by simp
    have ih: "keeps block s2 t
      \<and> errlog t = errlog s2 @ conflictsOf s2 w (take m cs) ?q
            @ (if m < length cs then [stopAt s2 w (runCell ?d ?q m)] else [])
      \<and> (\<forall>i < m. sol (cellAt t (runCell ?d ?q i)) = [cs ! i])
      \<and> (\<forall>a b c. 0 \<le> a \<and> 0 \<le> b \<and> 0 \<le> c \<and> (\<forall>i < m. (a, b, c) \<noteq> runCell ?d ?q i)
            \<longrightarrow> sol (cellAt t (a, b, c)) = sol (cellAt s2 (a, b, c)))"
      unfolding t_def
    proof (rule Cons.IH[OF ws2 mle])
      fix i assume "i < m"
      then show "openAt s2 (runCell ?d ?q i)" by (rule open2)
    next
      assume "m < length cs"
      then show "\<not> openAt s2 (runCell ?d ?q m)" by (rule stop2)
    qed
    have ih_keeps: "keeps block s2 t"
      and ih_log: "errlog t = errlog s2 @ conflictsOf s2 w (take m cs) ?q
            @ (if m < length cs then [stopAt s2 w (runCell ?d ?q m)] else [])"
      and ih_sol: "\<And>i. i < m \<Longrightarrow> sol (cellAt t (runCell ?d ?q i)) = [cs ! i]"
      and ih_frame: "\<And>a b c. 0 \<le> a \<Longrightarrow> 0 \<le> b \<Longrightarrow> 0 \<le> c \<Longrightarrow>
            (\<forall>i < m. (a, b, c) \<noteq> runCell ?d ?q i) \<Longrightarrow>
            sol (cellAt t (a, b, c)) = sol (cellAt s2 (a, b, c))"
      using ih by blast+
    have A: "keeps block st t" using k12 ih_keeps by (rule keeps_trans)
    have same_later: "sol (cellAt s2 (runCell ?d ?q i)) = sol (cellAt st (runCell ?d ?q i))"
      if "i < m" for i
    proof -
      obtain a b c where r: "runCell ?d ?q i = (a, b, c)" by (cases "runCell ?d ?q i")
      have "openAt st (a, b, c)" using Cons.prems(3)[of "Suc i"] that Suc r later by simp
      then have nn: "0 \<le> a" "0 \<le> b" "0 \<le> c" using openAt_nonneg by blast+
      have "(a, b, c) \<noteq> ?p" using runCell_fwd_neq[of ?d ?p i] r q by simp
      then have eq: "cellAt s2 (a, b, c) = cellAt st (a, b, c)" using cell2[OF nn] by auto
      show ?thesis unfolding r eq by (rule refl)
    qed
    have "conflictsOf s2 w (take m cs) ?q = conflictsOf st w (take m cs) ?q"
    proof (rule conflictsOf_cong)
      fix i assume "i < length (take m cs)"
      then have "i < m" by simp
      then show "sol (cellAt s2 (runCell ?d ?q i)) = sol (cellAt st (runCell ?d ?q i))"
        by (rule same_later)
    qed
    moreover have "errlog s2 = errlog st @ (if had \<noteq> [] \<and> had \<noteq> [l]
                    then [CrossingConflict w ?p had [l]] else [])"
      by (simp add: s2_def s1_def)
    moreover have "stopAt s2 = stopAt st" using k12 by (rule stopAt_keeps)
    ultimately have B: "errlog t = errlog st @ conflictsOf st w (take n (l # cs)) ?p
            @ (if n < length (l # cs) then [stopAt st w (runCell ?d ?p n)] else [])"
      using ih_log unfolding Suc q by (simp add: had_def cellAt_def runCell_Suc)
    have C: "sol (cellAt t (runCell ?d ?p i)) = [(l # cs) ! i]" if "i < n" for i
    proof (cases i)
      case 0
      have "\<forall>i < m. ?p \<noteq> runCell ?d ?q i"
        using runCell_fwd_neq[of ?d ?p] unfolding q by metis
      then have "sol (cellAt t ?p) = sol (cellAt s2 ?p)"
        using nonneg by (intro ih_frame)
      then show ?thesis using cell2[of x y z] nonneg 0 by simp
    next
      case (Suc i')
      then have "i' < m" using that \<open>n = Suc m\<close> by simp
      then have "sol (cellAt t (runCell ?d ?p (Suc i'))) = [cs ! i']"
        using ih_sol[of i'] unfolding later by simp
      then show ?thesis unfolding Suc by simp
    qed
    have D: "sol (cellAt t (a, b, c)) = sol (cellAt st (a, b, c))"
      if "0 \<le> a" "0 \<le> b" "0 \<le> c" "\<forall>i < n. (a, b, c) \<noteq> runCell ?d ?p i" for a b c
    proof -
      have ne: "(a, b, c) \<noteq> ?p" using that(4) Suc by force
      have "\<forall>i < m. (a, b, c) \<noteq> runCell ?d ?q i"
      proof (intro allI impI)
        fix i assume "i < m"
        then have "(a, b, c) \<noteq> runCell ?d ?p (Suc i)" using that(4) Suc by simp
        then show "(a, b, c) \<noteq> runCell ?d ?q i" unfolding later .
      qed
      then have "sol (cellAt t (a, b, c)) = sol (cellAt s2 (a, b, c))"
        using that(1,2,3) by (intro ih_frame)
      moreover have "cellAt s2 (a, b, c) = cellAt st (a, b, c)"
        using cell2[OF that(1,2,3)] ne by auto
      ultimately show ?thesis by simp
    qed
    show ?thesis unfolding unfold using A B C D by blast
  qed
qed


subsection \<open>The grid on which the words are written\<close>

lemma keeps_withBlocks:
  assumes "wellShaped st" "\<And>ce. g (ce\<lparr>block := True\<rparr>) = g ce"
  shows "keeps g st (withBlocks bs st)"
  unfolding withBlocks_def using assms
  by (intro keeps_foldl) (auto simp: keeps_refl intro!: keeps_upd)

lemma gridAfterBlocks_facts:
  "wellShaped (gridAfterBlocks js)" "errlog (gridAfterBlocks js) = []"
  "openAt (gridAfterBlocks js) p \<longleftrightarrow> freeCell js p"
  "openAt (gridAfterBlocks js) p \<Longrightarrow> sol (cellAt (gridAfterBlocks js) p) = []"
  "inBounds (gridAfterBlocks js) x y z \<longleftrightarrow> declaredRange js (x, y, z)"
proof -
  let ?s0 = "emptyWorld (js_nx js) (js_ny js) (js_nz js)"
  let ?s1 = "withBlocks (js_blocks js) ?s0"
  let ?s1' = "?s1\<lparr>cluesR := [], cluesD := [], cluesI := []\<rparr>"
  have ws1: "wellShaped ?s1'" by (simp add: wellShaped_withBlocks)
  have kb: "keeps block ?s1' (gridAfterBlocks js)"
    unfolding gridAfterBlocks_def using ws1 by (intro keeps_clearNumbers) simp_all
  have ks: "keeps sol ?s1' (gridAfterBlocks js)"
    unfolding gridAfterBlocks_def using ws1
    by (intro keeps_clearNumbers) (simp_all add: ignoresNumbers_def)
  have k0: "keeps sol ?s0 ?s1" by (intro keeps_withBlocks) simp_all
  show "wellShaped (gridAfterBlocks js)" using kb by (rule keeps_wellShaped)
  show "errlog (gridAfterBlocks js) = []" by (simp add: gridAfterBlocks_def withBlocks_frame)
  have inb: "inBounds (gridAfterBlocks js) a b c \<longleftrightarrow> declaredRange js (a, b, c)" for a b c
    using kb by (simp add: keeps_def inBounds_def declaredRange_def withBlocks_frame)
  show "inBounds (gridAfterBlocks js) x y z \<longleftrightarrow> declaredRange js (x, y, z)" by (rule inb)
  obtain a b c where p: "p = (a, b, c)" by (cases p)
  have inb0: "inBounds ?s0 a b c \<longleftrightarrow> declaredRange js p"
    by (simp add: inBounds_def declaredRange_def p)
  have blk: "block (cell (gridAfterBlocks js) a b c) \<longleftrightarrow> p \<in> set (js_blocks js)"
    if "declaredRange js p"
  proof -
    have "block (cell (gridAfterBlocks js) a b c) = block (cell ?s1 a b c)"
      using kb that inb0 by (simp add: keeps_def)
    also have "\<dots> \<longleftrightarrow> (a, b, c) \<in> set (js_blocks js) \<or> block (cell ?s0 a b c)"
      using that inb0 by (intro block_withBlocks) simp_all
    finally show ?thesis using that inb0 by (simp add: p empty_cell_def)
  qed
  show "openAt (gridAfterBlocks js) p \<longleftrightarrow> freeCell js p"
    using inb[of a b c] blk by (auto simp: openAt_def freeCell_def p)
  show "sol (cellAt (gridAfterBlocks js) p) = []" if "openAt (gridAfterBlocks js) p"
  proof -
    have d: "declaredRange js p" using that inb[of a b c] by (simp add: openAt_def p)
    then have "sol (cell (gridAfterBlocks js) a b c) = sol (cell ?s1 a b c)"
      using ks inb0 by (simp add: keeps_def)
    also have "\<dots> = sol (cell ?s0 a b c)" using k0 d inb0 by (simp add: keeps_def)
    finally show ?thesis using d inb0 by (simp add: cellAt_def p empty_cell_def)
  qed
qed

lemma reach_le: "reach tbl js w \<le> length (wordLetters tbl w)"
  unfolding reach_def
  using length_takeWhile_le[of "\<lambda>i. freeCell js (wordCell w i)" "[0..<length (wordLetters tbl w)]"]
  by simp

lemma reach_free:
  assumes "i < reach tbl js w"
  shows "freeCell js (wordCell w i)"
proof -
  let ?xs = "[0..<length (wordLetters tbl w)]"
  let ?P = "\<lambda>i. freeCell js (wordCell w i)"
  have i: "i < length (takeWhile ?P ?xs)" using assms by (simp add: reach_def)
  have il: "i < length (wordLetters tbl w)" using assms reach_le[of tbl js w] by simp
  have "takeWhile ?P ?xs ! i = ?xs ! i" using i by (rule takeWhile_nth)
  then have "takeWhile ?P ?xs ! i = i" using il by simp
  moreover have "takeWhile ?P ?xs ! i \<in> set (takeWhile ?P ?xs)" using i by (rule nth_mem)
  ultimately have "i \<in> set (takeWhile ?P ?xs)" by simp
  then show ?thesis by (rule set_takeWhileD[THEN conjunct2])
qed

lemma reach_stop:
  assumes "reach tbl js w < length (wordLetters tbl w)"
  shows "\<not> freeCell js (wordCell w (reach tbl js w))"
proof -
  let ?xs = "[0..<length (wordLetters tbl w)]"
  let ?P = "\<lambda>i. freeCell js (wordCell w i)"
  have "length (takeWhile ?P ?xs) < length ?xs" using assms by (simp add: reach_def)
  then have "\<not> ?P (?xs ! length (takeWhile ?P ?xs))" by (rule nth_length_takeWhile)
  moreover have "?xs ! length (takeWhile ?P ?xs) = reach tbl js w"
    using assms by (simp add: reach_def)
  ultimately show ?thesis by simp
qed

text \<open>
  What writing a word does on a grid with the block pattern of the record: the
  first \<open>reach\<close> letters are written and checked against what the cells held,
  and a word that does not fit gets the diagnostic of the cell that stops it.
\<close>

lemma writeWord_general:
  assumes k: "keeps block (gridAfterBlocks js) st"
  shows "keeps block st (writeWord tbl st w)
    \<and> errlog (writeWord tbl st w)
        = errlog st @ conflictsOf st w (take (reach tbl js w) (wordLetters tbl w)) (w_start w)
            @ stopDiag tbl js w
    \<and> (\<forall>i < reach tbl js w. sol (cellAt (writeWord tbl st w) (wordCell w i)) = [wordLetters tbl w ! i])
    \<and> (\<forall>p. freeCell js p \<and> (\<forall>i < reach tbl js w. p \<noteq> wordCell w i)
          \<longrightarrow> sol (cellAt (writeWord tbl st w) p) = sol (cellAt st p))"
proof -
  obtain x y z where p: "w_start w = (x, y, z)" by (cases "w_start w")
  let ?n = "reach tbl js w"
  let ?cs = "wordLetters tbl w"
  have ws: "wellShaped st" using k by (rule keeps_wellShaped)
  have opn: "openAt st q \<longleftrightarrow> freeCell js q" for q
    using openAt_keeps[OF k] gridAfterBlocks_facts(3) by simp
  have cellw: "runCell (w_dir w) (x, y, z) i = wordCell w i" for i by (simp add: wordCell_def p)
  have o1: "\<And>i. i < ?n \<Longrightarrow> openAt st (runCell (w_dir w) (x, y, z) i)"
    unfolding cellw opn by (rule reach_free)
  have o2: "?n < length ?cs \<Longrightarrow> \<not> openAt st (runCell (w_dir w) (x, y, z) ?n)"
    unfolding cellw opn by (rule reach_stop)
  have wl: "writeLetters w ?cs x y z st = writeWord tbl st w"
    by (simp add: writeWord_def p wordLetters_def)
  note g0 = writeLetters_general[OF ws reach_le o1 o2, unfolded cellw wl]
  note g = g0[unfolded p[symmetric]]
  have stop: "(if ?n < length ?cs then [stopAt st w (wordCell w ?n)] else []) = stopDiag tbl js w"
  proof -
    obtain a b c where q: "wordCell w ?n = (a, b, c)" by (cases "wordCell w ?n")
    have "inBounds st a b c \<longleftrightarrow> declaredRange js (a, b, c)"
      using keeps_inBounds[OF k] gridAfterBlocks_facts(5) by simp
    then show ?thesis by (simp add: stopDiag_def stopAt_def q)
  qed
  have A: "keeps block st (writeWord tbl st w)" using g by (rule conjunct1)
  have B: "errlog (writeWord tbl st w)
        = errlog st @ conflictsOf st w (take ?n ?cs) (w_start w) @ stopDiag tbl js w"
    using g stop by simp
  have C: "\<forall>i < ?n. sol (cellAt (writeWord tbl st w) (wordCell w i)) = [?cs ! i]"
    using g by blast
  have D0: "\<forall>a b c. 0 \<le> a \<and> 0 \<le> b \<and> 0 \<le> c \<and> (\<forall>i < ?n. (a, b, c) \<noteq> wordCell w i)
          \<longrightarrow> sol (cellAt (writeWord tbl st w) (a, b, c)) = sol (cellAt st (a, b, c))"
    using g by blast
  have D: "\<forall>q. freeCell js q \<and> (\<forall>i < ?n. q \<noteq> wordCell w i)
          \<longrightarrow> sol (cellAt (writeWord tbl st w) q) = sol (cellAt st q)"
  proof (intro allI impI)
    fix q assume h: "freeCell js q \<and> (\<forall>i < ?n. q \<noteq> wordCell w i)"
    obtain a b c where q: "q = (a, b, c)" by (cases q)
    have "openAt st (a, b, c)" using h opn q by simp
    then have "0 \<le> a \<and> 0 \<le> b \<and> 0 \<le> c" by (rule openAt_nonneg)
    then show "sol (cellAt (writeWord tbl st w) q) = sol (cellAt st q)"
      using D0 h unfolding q by blast
  qed
  show ?thesis using A B C D by (intro conjI)
qed


subsection \<open>Two words that cross with different letters\<close>

lemma list_all_upt_pairs:
  "list_all (\<lambda>i. list_all (\<lambda>j. P i j) [0..<n2]) [0..<n1] \<longleftrightarrow> (\<forall>i j. i < n1 \<and> j < n2 \<longrightarrow> P i j)"
  unfolding list_all_iff by auto

lemma crossOnceAt_only:
  assumes "crossOnceAt tbl js w1 w2 i1 i2"
  shows "i1 < reach tbl js w1" "i2 < reach tbl js w2" "wordCell w1 i1 = wordCell w2 i2"
    and "\<And>i j. i < reach tbl js w1 \<Longrightarrow> j < reach tbl js w2 \<Longrightarrow> wordCell w1 i = wordCell w2 j
            \<Longrightarrow> i = i1 \<and> j = i2"
proof -
  have all: "i1 < reach tbl js w1 \<and> i2 < reach tbl js w2 \<and> wordCell w1 i1 = wordCell w2 i2
      \<and> (\<forall>i j. i < reach tbl js w1 \<and> j < reach tbl js w2 \<longrightarrow>
             (wordCell w1 i = wordCell w2 j \<longrightarrow> i = i1 \<and> j = i2))"
    using assms unfolding crossOnceAt_def list_all_upt_pairs .
  show "i1 < reach tbl js w1" "i2 < reach tbl js w2" "wordCell w1 i1 = wordCell w2 i2"
    using all by (rule conjunct1, rule conjunct2[THEN conjunct1], rule conjunct2[THEN conjunct2, THEN conjunct1])
  fix i j assume "i < reach tbl js w1" "j < reach tbl js w2" "wordCell w1 i = wordCell w2 j"
  then show "i = i1 \<and> j = i2"
    using all[THEN conjunct2, THEN conjunct2, THEN conjunct2, rule_format, of i j] by simp
qed

lemma agreeOn_letters:
  assumes "agreeOn tbl js v w" "i < reach tbl js v" "j < reach tbl js w" "wordCell v i = wordCell w j"
  shows "wordLetters tbl v ! i = wordLetters tbl w ! j"
proof -
  have "\<forall>i j. i < reach tbl js v \<and> j < reach tbl js w \<longrightarrow>
             (wordCell v i = wordCell w j \<longrightarrow> wordLetters tbl v ! i = wordLetters tbl w ! j)"
    using assms(1) unfolding agreeOn_def list_all_upt_pairs .
  then show ?thesis using assms(2,3,4) by simp
qed

lemma othersAgree_pair:
  assumes "othersAgree tbl js a b" "k < l" "l < length (js_words js)" "\<not> (k = a \<and> l = b)"
  shows "agreeOn tbl js (js_words js ! k) (js_words js ! l)"
proof -
  have l: "l \<in> set [0..<length (js_words js)]" using assms(3) by simp
  have k: "k \<in> set [0..<l]" using assms(2) by simp
  have "\<forall>l \<in> set [0..<length (js_words js)]. \<forall>k \<in> set [0..<l].
           (k = a \<and> l = b) \<or> agreeOn tbl js (js_words js ! k) (js_words js ! l)"
    using assms(1) unfolding othersAgree_def list_all_iff .
  then have "\<forall>k \<in> set [0..<l]. (k = a \<and> l = b) \<or> agreeOn tbl js (js_words js ! k) (js_words js ! l)"
    using l by (rule bspec)
  then have "(k = a \<and> l = b) \<or> agreeOn tbl js (js_words js ! k) (js_words js ! l)"
    using k by (rule bspec)
  then show ?thesis using assms(4) by simp
qed

lemma wordCell_inj: "wordCell w i = wordCell w j \<Longrightarrow> i = j"
  unfolding wordCell_def by (rule runCell_inj)


lemma lettersInv_step:
  assumes ab: "a < b" "b < length (js_words js)"
    and cross: "crossOnceAt tbl js (js_words js ! a) (js_words js ! b) i1 i2"
    and differ: "wordLetters tbl (js_words js ! a) ! i1 \<noteq> wordLetters tbl (js_words js ! b) ! i2"
    and agree: "othersAgree tbl js a b"
    and e: "e = CrossingConflict (js_words js ! b) (wordCell (js_words js ! b) i2)
                 [wordLetters tbl (js_words js ! a) ! i1] [wordLetters tbl (js_words js ! b) ! i2]"
    and k: "k < length (js_words js)"
    and inv: "lettersInv tbl js a b i2 e k s"
  shows "lettersInv tbl js a b i2 e (Suc k) (writeWord tbl s (js_words js ! k))"
proof -
  let ?W = "\<lambda>j. js_words js ! j"
  let ?L = "\<lambda>j. wordLetters tbl (js_words js ! j)"
  let ?n = "\<lambda>j. reach tbl js (js_words js ! j)"
  let ?C = "\<lambda>j i. wordCell (js_words js ! j) i"
  let ?c = "wordCell (js_words js ! b) i2"
  let ?g = "gridAfterBlocks js"
  let ?t = "writeWord tbl s (js_words js ! k)"
  note cr = crossOnceAt_only[OF cross]
  have ag: "?L j ! i = ?L l ! i'"
    if "j < l" "l < length (js_words js)" "\<not> (j = a \<and> l = b)" "i < ?n j" "i' < ?n l" "?C j i = ?C l i'"
    for j l i i'
    using agreeOn_letters[OF othersAgree_pair[OF agree that(1,2,3)] that(4,5,6)] .
  have inv': "keeps block ?g s \<and>
     (\<forall>j < k. \<forall>i < ?n j.
         sol (cellAt s (?C j i)) = (if ?C j i = ?c \<and> b < k then [?L b ! i2] else [?L j ! i])) \<and>
     (\<forall>p. freeCell js p \<and> (\<forall>j < k. \<forall>i < ?n j. p \<noteq> ?C j i) \<longrightarrow> sol (cellAt s p) = []) \<and>
     errlog s = concat (map (wordDiags tbl js b e) [0..<k])"
    using inv unfolding lettersInv_def .
  have kg: "keeps block ?g s" using inv' by (rule conjunct1)
  have I2: "sol (cellAt s (?C j i)) = (if ?C j i = ?c \<and> b < k then [?L b ! i2] else [?L j ! i])"
    if "j < k" "i < ?n j" for j i
    using inv'[THEN conjunct2, THEN conjunct1] that by simp
  have I3: "sol (cellAt s p) = []" if "freeCell js p" "\<forall>j < k. \<forall>i < ?n j. p \<noteq> ?C j i" for p
    using inv'[THEN conjunct2, THEN conjunct2, THEN conjunct1, rule_format, of p] that by simp
  have I4: "errlog s = concat (map (wordDiags tbl js b e) [0..<k])"
    using inv'[THEN conjunct2, THEN conjunct2, THEN conjunct2] .
  note E = writeWord_general[OF kg, of tbl "js_words js ! k"]
  have E1: "keeps block s ?t" using E by (rule conjunct1)
  have E2: "errlog ?t = errlog s @ conflictsOf s (?W k) (take (?n k) (?L k)) (w_start (?W k))
                          @ stopDiag tbl js (?W k)"
    using E[THEN conjunct2, THEN conjunct1] .
  have E3: "sol (cellAt ?t (?C k i)) = [?L k ! i]" if "i < ?n k" for i
    using E[THEN conjunct2, THEN conjunct2, THEN conjunct1] that by simp
  have E4: "sol (cellAt ?t p) = sol (cellAt s p)" if "freeCell js p" "\<forall>i < ?n k. p \<noteq> ?C k i" for p
    using E[THEN conjunct2, THEN conjunct2, THEN conjunct2, rule_format, of p] that by simp
  have quiet: "sol (cellAt s (?C k i)) = [] \<or> sol (cellAt s (?C k i)) = [?L k ! i]"
    if i: "i < ?n k" and ne: "\<not> (k = b \<and> i = i2)" for i
  proof (cases "\<forall>j < k. \<forall>i' < ?n j. ?C k i \<noteq> ?C j i'")
    case True
    have "freeCell js (?C k i)" using i by (rule reach_free)
    then have "sol (cellAt s (?C k i)) = []" using True by (rule I3)
    then show ?thesis by simp
  next
    case False
    then obtain j i' where j: "j < k" and i': "i' < ?n j" and eq: "?C k i = ?C j i'" by blast
    have nab: "\<not> (j = a \<and> k = b)"
    proof
      assume h: "j = a \<and> k = b"
      have "i' = i1 \<and> i = i2" using cr(4)[of i' i] i' i eq h by simp
      then show False using ne h by simp
    qed
    have l1: "?L j ! i' = ?L k ! i" using ag[OF j k nab i' i] eq by simp
    have sj: "sol (cellAt s (?C j i')) = (if ?C j i' = ?c \<and> b < k then [?L b ! i2] else [?L j ! i'])"
      using j i' by (rule I2)
    have "sol (cellAt s (?C j i')) = [?L k ! i]"
    proof (cases "?C j i' = ?c \<and> b < k")
      case True
      then have bk: "b < k" by simp
      have nb: "\<not> (b = a \<and> k = b)" using ab(1) by simp
      have "?C b i2 = ?C k i" using True eq by simp
      then have "?L b ! i2 = ?L k ! i" by (rule ag[OF bk k nb cr(2) i])
      then show ?thesis unfolding sj if_P[OF True] by simp
    next
      case False
      show ?thesis unfolding sj if_not_P[OF False] using l1 by simp
    qed
    then show ?thesis unfolding eq by simp
  qed
  have len: "length (take (?n k) (?L k)) = ?n k" using reach_le[of tbl js "?W k"] by simp
  have rc: "runCell (w_dir (?W k)) (w_start (?W k)) i = ?C k i" for i by (simp add: wordCell_def)
  have conf: "conflictsOf s (?W k) (take (?n k) (?L k)) (w_start (?W k)) = (if k = b then [e] else [])"
  proof (cases "k = b")
    case False
    have "conflictsOf s (?W k) (take (?n k) (?L k)) (w_start (?W k)) = []"
    proof (rule conflictsOf_quiet)
      fix i assume "i < length (take (?n k) (?L k))"
      then have i: "i < ?n k" by simp
      have "take (?n k) (?L k) ! i = ?L k ! i" using i by simp
      then show "sol (cellAt s (runCell (w_dir (?W k)) (w_start (?W k)) i)) = []
         \<or> sol (cellAt s (runCell (w_dir (?W k)) (w_start (?W k)) i)) = [take (?n k) (?L k) ! i]"
        unfolding rc using quiet[OF i] False by simp
    qed
    then show ?thesis using False by simp
  next
    case True
    have i2k: "i2 < ?n k" using cr(2) True by simp
    have had: "sol (cellAt s (?C k i2)) = [?L a ! i1]"
    proof -
      have "a < k" using ab(1) True by simp
      then have "sol (cellAt s (?C a i1))
                  = (if ?C a i1 = ?c \<and> b < k then [?L b ! i2] else [?L a ! i1])"
        using cr(1) by (rule I2)
      then show ?thesis using True cr(3) by simp
    qed
    have "conflictsOf s (?W k) (take (?n k) (?L k)) (w_start (?W k))
            = [CrossingConflict (?W k) (runCell (w_dir (?W k)) (w_start (?W k)) i2)
                 [?L a ! i1] [take (?n k) (?L k) ! i2]]"
    proof (rule conflictsOf_one)
      show "i2 < length (take (?n k) (?L k))" using i2k len by simp
      show "sol (cellAt s (runCell (w_dir (?W k)) (w_start (?W k)) i2)) = [?L a ! i1]"
        unfolding rc by (rule had)
      show "[?L a ! i1] \<noteq> []" by simp
      show "[?L a ! i1] \<noteq> [take (?n k) (?L k) ! i2]" using differ i2k True by simp
      fix i assume "i < length (take (?n k) (?L k))" and ni: "i \<noteq> i2"
      then have i: "i < ?n k" by simp
      have "take (?n k) (?L k) ! i = ?L k ! i" using i by simp
      then show "sol (cellAt s (runCell (w_dir (?W k)) (w_start (?W k)) i)) = []
         \<or> sol (cellAt s (runCell (w_dir (?W k)) (w_start (?W k)) i)) = [take (?n k) (?L k) ! i]"
        unfolding rc using quiet[OF i] ni by simp
    qed
    then show ?thesis using True e i2k by (simp add: wordCell_def)
  qed
  have J1: "keeps block ?g ?t" using kg E1 by (rule keeps_trans)
  have J2: "sol (cellAt ?t (?C j i)) = (if ?C j i = ?c \<and> b < Suc k then [?L b ! i2] else [?L j ! i])"
    if j: "j < Suc k" and i: "i < ?n j" for j i
  proof (cases "\<exists>i'' < ?n k. ?C j i = ?C k i''")
    case True
    then obtain i'' where i'': "i'' < ?n k" and eq: "?C j i = ?C k i''" by blast
    have st: "sol (cellAt ?t (?C j i)) = [?L k ! i'']" unfolding eq using i'' by (rule E3)
    show ?thesis
    proof (cases "?C j i = ?c \<and> b < Suc k")
      case c: True
      show ?thesis
      proof (cases "b = k")
        case True
        have "?C b i'' = ?C b i2" using c eq True by simp
        then have "i'' = i2" by (rule wordCell_inj)
        then show ?thesis unfolding st if_P[OF c] using True by simp
      next
        case False
        then have bk: "b < k" using c by simp
        have nb: "\<not> (b = a \<and> k = b)" using ab(1) by simp
        have "?C b i2 = ?C k i''" using c eq by simp
        then have "?L b ! i2 = ?L k ! i''" by (rule ag[OF bk k nb cr(2) i''])
        then show ?thesis unfolding st if_P[OF c] by simp
      qed
    next
      case nc: False
      show ?thesis
      proof (cases "j = k")
        case True
        have "?C k i = ?C k i''" using eq True by simp
        then have "i = i''" by (rule wordCell_inj)
        then show ?thesis unfolding st if_not_P[OF nc] using True by simp
      next
        case False
        then have jk: "j < k" using j by simp
        have nab: "\<not> (j = a \<and> k = b)"
        proof
          assume h: "j = a \<and> k = b"
          have "i = i1 \<and> i'' = i2" using cr(4)[of i i''] i i'' eq h by simp
          then have "?C j i = ?c" using eq h by simp
          then show False using nc h by simp
        qed
        have "?L j ! i = ?L k ! i''" using eq by (rule ag[OF jk k nab i i''])
        then show ?thesis unfolding st if_not_P[OF nc] by simp
      qed
    qed
  next
    case False
    then have nocov: "\<forall>i'' < ?n k. ?C j i \<noteq> ?C k i''" by blast
    have "j \<noteq> k" using nocov i by blast
    then have jk: "j < k" using j by simp
    have fr: "freeCell js (?C j i)" using i by (rule reach_free)
    have "sol (cellAt ?t (?C j i)) = sol (cellAt s (?C j i))" using fr nocov by (rule E4)
    also have "\<dots> = (if ?C j i = ?c \<and> b < k then [?L b ! i2] else [?L j ! i])"
      using jk i by (rule I2)
    also have "\<dots> = (if ?C j i = ?c \<and> b < Suc k then [?L b ! i2] else [?L j ! i])"
    proof -
      have "?C j i \<noteq> ?c" if "b = k"
        using nocov cr(2) that by blast
      then show ?thesis by (auto simp: less_Suc_eq)
    qed
    finally show ?thesis .
  qed
  have J3: "sol (cellAt ?t p) = []" if "freeCell js p" "\<forall>j < Suc k. \<forall>i < ?n j. p \<noteq> ?C j i" for p
  proof -
    have "\<forall>i < ?n k. p \<noteq> ?C k i" using that(2) by simp
    then have "sol (cellAt ?t p) = sol (cellAt s p)" using that(1) by (intro E4)
    moreover have "\<forall>j < k. \<forall>i < ?n j. p \<noteq> ?C j i" using that(2) by simp
    then have "sol (cellAt s p) = []" using that(1) by (intro I3)
    ultimately show ?thesis by simp
  qed
  have J4: "errlog ?t = concat (map (wordDiags tbl js b e) [0..<Suc k])"
    using E2 conf I4 by (simp add: wordDiags_def)
  show ?thesis unfolding lettersInv_def
  proof (intro conjI allI impI)
    show "keeps block ?g ?t" by (rule J1)
  next
    fix j i assume "j < Suc k" "i < ?n j"
    then show "sol (cellAt ?t (?C j i)) = (if ?C j i = ?c \<and> b < Suc k then [?L b ! i2] else [?L j ! i])"
      by (rule J2)
  next
    fix p assume "freeCell js p \<and> (\<forall>j < Suc k. \<forall>i < ?n j. p \<noteq> ?C j i)"
    then show "sol (cellAt ?t p) = []" using J3 by blast
  next
    show "errlog ?t = concat (map (wordDiags tbl js b e) [0..<Suc k])" by (rule J4)
  qed
qed


lemma lettersInv_start: "lettersInv tbl js a b i2 e 0 (gridAfterBlocks js)"
  unfolding lettersInv_def
  using gridAfterBlocks_facts(1,2)[of js] gridAfterBlocks_facts(3,4)[of js]
  by (simp add: keeps_refl)

lemma lettersInv_prefix:
  assumes ab: "a < b" "b < length (js_words js)"
    and cross: "crossOnceAt tbl js (js_words js ! a) (js_words js ! b) i1 i2"
    and differ: "wordLetters tbl (js_words js ! a) ! i1 \<noteq> wordLetters tbl (js_words js ! b) ! i2"
    and agree: "othersAgree tbl js a b"
    and e: "e = CrossingConflict (js_words js ! b) (wordCell (js_words js ! b) i2)
                 [wordLetters tbl (js_words js ! a) ! i1] [wordLetters tbl (js_words js ! b) ! i2]"
    and k: "k \<le> length (js_words js)"
  shows "lettersInv tbl js a b i2 e k (lettersPass tbl js (take k (js_words js)))"
  using k
proof (induction k)
  case 0
  show ?case by (simp add: lettersPass_def lettersInv_start)
next
  case (Suc k)
  then have k: "k < length (js_words js)" by simp
  have "lettersInv tbl js a b i2 e k (lettersPass tbl js (take k (js_words js)))"
    using Suc by simp
  from lettersInv_step[OF ab cross differ agree e k this]
  show ?case by (simp add: lettersPass_def take_Suc_conv_app_nth[OF k])
qed

lemma stopDiag_not_crossing: "filter isCrossingConflict (stopDiag tbl js w) = []"
  by (simp add: stopDiag_def isCrossingConflict_def)

lemma filter_wordDiags:
  assumes "isCrossingConflict e"
  shows "filter isCrossingConflict (concat (map (wordDiags tbl js b e) [0..<n]))
           = (if b < n then [e] else [])"
  by (induction n) (simp_all add: wordDiags_def stopDiag_not_crossing assms less_Suc_eq)

subsection \<open>From the letters pass to the loaded state\<close>

lemma clueCount_pushClue [simp]: "clueCount (pushClue d c st) = Suc (clueCount st)"
  by (cases d) (simp_all add: clueCount_def pushClue_def)

lemma clueCount_buildClues: "clueCount (buildClues tbl ws m k st) = clueCount st + length ws"
  by (induction ws arbitrary: m k st) (simp_all add: Let_def)

lemma clueCount_later_passes [simp]:
  "clueCount (applyNumbers st) = clueCount st" "clueCount (attachAnswersToClues st) = clueCount st"
  by (simp_all add: clueCount_def attachAnswersToClues_def)

lemma load_formatA:
  assumes "js_words js \<noteq> []"
  shows "loadedState tbl js
     = attachAnswersToClues (applyNumbers
         (buildClues tbl (js_words js) Map.empty 1 (lettersPass tbl js (js_words js))))"
  using assms
  by (simp add: loadedState_def loadAfterBlocks_def Let_def lettersPass_def gridAfterBlocks_def)

lemma keeps_lettersPass: "keeps block (gridAfterBlocks js) (lettersPass tbl js ws)"
  unfolding lettersPass_def using gridAfterBlocks_facts(1)
  by (intro keeps_foldl) (auto intro: keeps_writeWord)

lemma load_formatA_facts:
  assumes "js_words js \<noteq> []"
  shows "errlog (loadedState tbl js) = errlog (lettersPass tbl js (js_words js))"
    and "freeCell js p \<Longrightarrow>
          sol (cellAt (loadedState tbl js) p) = sol (cellAt (lettersPass tbl js (js_words js)) p)"
    and "clueCount (loadedState tbl js) = length (js_words js)"
proof -
  let ?s3 = "lettersPass tbl js (js_words js)"
  let ?s4 = "buildClues tbl (js_words js) Map.empty 1 ?s3"
  have ws3: "wellShaped ?s3" using keeps_lettersPass by (rule keeps_wellShaped)
  show "errlog (loadedState tbl js) = errlog ?s3"
    unfolding load_formatA[OF assms] by simp
  have k4: "keeps sol ?s4 (applyNumbers ?s4)"
    by (intro keeps_applyNumbers) (simp_all add: ignoresNumbers_def ws3)
  show "sol (cellAt (loadedState tbl js) p) = sol (cellAt ?s3 p)" if "freeCell js p"
  proof -
    obtain x y z where p: "p = (x, y, z)" by (cases p)
    have "declaredRange js (x, y, z)" using that by (simp add: freeCell_def p)
    then have "inBounds (gridAfterBlocks js) x y z" by (simp add: gridAfterBlocks_facts(5))
    then have "inBounds ?s3 x y z"
      using keeps_inBounds[OF keeps_lettersPass[of js tbl "js_words js"]] by simp
    then have "inBounds ?s4 x y z" by (simp add: inBounds_def)
    then have "sol (cell (applyNumbers ?s4) x y z) = sol (cell ?s4 x y z)"
      using k4 by (simp add: keeps_def)
    then show ?thesis unfolding load_formatA[OF assms] by (simp add: cellAt_def p)
  qed
  have "clueCount ?s3 = 0"
    by (simp add: clueCount_def lettersPass_def gridAfterBlocks_def withBlocks_frame)
  then show "clueCount (loadedState tbl js) = length (js_words js)"
    unfolding load_formatA[OF assms] by (simp add: clueCount_buildClues)
qed

text \<open>
  With the case table of the sketch's alphabet the two words of \<open>exampleTilde\<close>
  put the same letter on their common start cell, and the load prints nothing; a
  table that left the o with tilde alone would make them differ.
\<close>

lemma upper_casing_decides_the_conflict:
  "(case loadPuzzleFromJSON exampleTable exampleTilde of
      Inl err \<Rightarrow> False
    | Inr st \<Rightarrow> errlog st = [] \<and> sol (cell st 0 0 0) = [char_of (213::nat)])
   \<and> (case loadPuzzleFromJSON (\<lambda>c. [c]) exampleTilde of
         Inl err \<Rightarrow> False
       | Inr st \<Rightarrow>
           errlog st = [CrossingConflict (js_words exampleTilde ! 1) (0, 0, 0)
                          [char_of (245::nat)] [char_of (213::nat)]])"
  by code_simp

text \<open>
  C6. The specification says that a Format A record with two words whose runs cross at exactly
  one shared in-bounds open cell, with different letters there, loads with exactly
  one crossing-conflict diagnostic. Two records show that this needs more. In
  \<open>exampleStopped\<close> the runs of the two words cross at the open cell
  \<open>(2, 0, 0)\<close> with \<open>T\<close> against \<open>O\<close>, but the first word is stopped by a
  block before it reaches that cell: the load prints \<open>WORD HITS BLOCK\<close> and no
  crossing conflict at all. In \<open>exampleTwoConflicts\<close> the first two words cross
  as the specification describes, and a third word disagrees with the first one on another
  cell: the load prints two crossing conflicts.
\<close>

theorem C6_counterexample:
  "\<forall>tbl.
     runsCrossOnceAt tbl exampleStopped (js_words exampleStopped ! 0) (js_words exampleStopped ! 1) 2 0
     \<and> wordLetters tbl (js_words exampleStopped ! 0) ! 2 = CHR ''T''
     \<and> wordLetters tbl (js_words exampleStopped ! 1) ! 0 = CHR ''O''
     \<and> (case loadPuzzleFromJSON tbl exampleStopped of
           Inl err \<Rightarrow> False
         | Inr st \<Rightarrow>
             errlog st = [WordHitsBlock (js_words exampleStopped ! 0) (1, 0, 0)]
             \<and> filter isCrossingConflict (errlog st) = [])
     \<and> runsCrossOnceAt tbl exampleTwoConflicts
           (js_words exampleTwoConflicts ! 0) (js_words exampleTwoConflicts ! 1) 1 0
     \<and> wordLetters tbl (js_words exampleTwoConflicts ! 0) ! 1 = CHR ''A''
     \<and> wordLetters tbl (js_words exampleTwoConflicts ! 1) ! 0 = CHR ''O''
     \<and> (case loadPuzzleFromJSON tbl exampleTwoConflicts of
           Inl err \<Rightarrow> False
         | Inr st \<Rightarrow>
             errlog st = [CrossingConflict (js_words exampleTwoConflicts ! 1) (1, 0, 0) ''A'' ''O'',
                          CrossingConflict (js_words exampleTwoConflicts ! 2) (2, 0, 0) ''T'' ''S'']
             \<and> length (filter isCrossingConflict (errlog st)) = 2)"
proof
  fix tbl
  have 1: "runsCrossOnceAt tbl exampleStopped
             (js_words exampleStopped ! 0) (js_words exampleStopped ! 1) 2 0"
    by code_simp
  have 2: "wordLetters tbl (js_words exampleStopped ! 0) ! 2 = CHR ''T''"
    "wordLetters tbl (js_words exampleStopped ! 1) ! 0 = CHR ''O''"
    by code_simp+
  have 3: "case loadPuzzleFromJSON tbl exampleStopped of
           Inl err \<Rightarrow> False
         | Inr st \<Rightarrow>
             errlog st = [WordHitsBlock (js_words exampleStopped ! 0) (1, 0, 0)]
             \<and> filter isCrossingConflict (errlog st) = []"
    by code_simp
  have 4: "runsCrossOnceAt tbl exampleTwoConflicts
           (js_words exampleTwoConflicts ! 0) (js_words exampleTwoConflicts ! 1) 1 0"
    by code_simp
  have 5: "wordLetters tbl (js_words exampleTwoConflicts ! 0) ! 1 = CHR ''A''"
    "wordLetters tbl (js_words exampleTwoConflicts ! 1) ! 0 = CHR ''O''"
    by code_simp+
  have 6: "case loadPuzzleFromJSON tbl exampleTwoConflicts of
           Inl err \<Rightarrow> False
         | Inr st \<Rightarrow>
             errlog st = [CrossingConflict (js_words exampleTwoConflicts ! 1) (1, 0, 0) ''A'' ''O'',
                          CrossingConflict (js_words exampleTwoConflicts ! 2) (2, 0, 0) ''T'' ''S'']
             \<and> length (filter isCrossingConflict (errlog st)) = 2"
    by code_simp
  show "runsCrossOnceAt tbl exampleStopped (js_words exampleStopped ! 0) (js_words exampleStopped ! 1) 2 0
     \<and> wordLetters tbl (js_words exampleStopped ! 0) ! 2 = CHR ''T''
     \<and> wordLetters tbl (js_words exampleStopped ! 1) ! 0 = CHR ''O''
     \<and> (case loadPuzzleFromJSON tbl exampleStopped of
           Inl err \<Rightarrow> False
         | Inr st \<Rightarrow>
             errlog st = [WordHitsBlock (js_words exampleStopped ! 0) (1, 0, 0)]
             \<and> filter isCrossingConflict (errlog st) = [])
     \<and> runsCrossOnceAt tbl exampleTwoConflicts
           (js_words exampleTwoConflicts ! 0) (js_words exampleTwoConflicts ! 1) 1 0
     \<and> wordLetters tbl (js_words exampleTwoConflicts ! 0) ! 1 = CHR ''A''
     \<and> wordLetters tbl (js_words exampleTwoConflicts ! 1) ! 0 = CHR ''O''
     \<and> (case loadPuzzleFromJSON tbl exampleTwoConflicts of
           Inl err \<Rightarrow> False
         | Inr st \<Rightarrow>
             errlog st = [CrossingConflict (js_words exampleTwoConflicts ! 1) (1, 0, 0) ''A'' ''O'',
                          CrossingConflict (js_words exampleTwoConflicts ! 2) (2, 0, 0) ''T'' ''S'']
             \<and> length (filter isCrossingConflict (errlog st)) = 2)"
    using 1 2 3 4 5 6 by (intro conjI)
qed

text \<open>
  C6 as amended. Take a Format A record in which the \<open>a\<close>-th word and the later
  \<open>b\<close>-th word cross: the parts of the two that get written (the letters in
  front of the first blocked or off-grid cell of each run) share exactly one cell,
  and the upper-cased answers put different letters there. Let no other two words
  of the record put different letters on a cell both write. Then the load returns,
  and of the diagnostics it printed exactly one is a crossing conflict: the one of
  the \<open>b\<close>-th word at the shared cell, with the letter of the \<open>a\<close>-th word as
  the prior value. The diagnostics are, word by word in the order of the record,
  this conflict and, for every word that runs off the grid or into a block, the
  diagnostic that stopped it: the words after the conflict are reported like the
  ones before it. The shared cell ends with the letter of the \<open>b\<close>-th word. Every
  other cell that some word of the record wrote, before or after the conflict,
  holds that word's letter, a free cell that no word wrote holds none, and every
  word has its clue. The letters are those of JavaScript's \<open>toUpperCase\<close>,
  for every case table.
\<close>

theorem C6_crossing_conflict_reported_once:
  fixes tbl js a b i1 i2
  defines "e \<equiv> CrossingConflict (js_words js ! b) (wordCell (js_words js ! b) i2)
                 [wordLetters tbl (js_words js ! a) ! i1] [wordLetters tbl (js_words js ! b) ! i2]"
  assumes "a < b" "b < length (js_words js)"
    and "crossOnceAt tbl js (js_words js ! a) (js_words js ! b) i1 i2"
    and "wordLetters tbl (js_words js ! a) ! i1 \<noteq> wordLetters tbl (js_words js ! b) ! i2"
    and "othersAgree tbl js a b"
  shows "\<exists>st. loadPuzzleFromJSON tbl js = Inr st
     \<and> filter isCrossingConflict (errlog st) = [e]
     \<and> errlog st = concat (map (wordDiags tbl js b e) [0..<length (js_words js)])
     \<and> sol (cellAt st (wordCell (js_words js ! b) i2)) = [wordLetters tbl (js_words js ! b) ! i2]
     \<and> (\<forall>k < length (js_words js). \<forall>i < reach tbl js (js_words js ! k).
           wordCell (js_words js ! k) i \<noteq> wordCell (js_words js ! b) i2 \<longrightarrow>
           sol (cellAt st (wordCell (js_words js ! k) i)) = [wordLetters tbl (js_words js ! k) ! i])
     \<and> (\<forall>p. freeCell js p
             \<and> (\<forall>k < length (js_words js). \<forall>i < reach tbl js (js_words js ! k).
                    p \<noteq> wordCell (js_words js ! k) i)
           \<longrightarrow> sol (cellAt st p) = [])
     \<and> clueCount st = length (js_words js)"
proof -
  let ?st = "loadedState tbl js"
  let ?s = "lettersPass tbl js (js_words js)"
  let ?c = "wordCell (js_words js ! b) i2"
  have ne: "js_words js \<noteq> []" using assms(3) by auto
  have e: "e = CrossingConflict (js_words js ! b) (wordCell (js_words js ! b) i2)
                 [wordLetters tbl (js_words js ! a) ! i1] [wordLetters tbl (js_words js ! b) ! i2]"
    by (simp add: e_def)
  have "lettersInv tbl js a b i2 e (length (js_words js))
          (lettersPass tbl js (take (length (js_words js)) (js_words js)))"
    using assms(2-6) e by (intro lettersInv_prefix) simp_all
  then have inv: "lettersInv tbl js a b i2 e (length (js_words js)) ?s" by simp
  have inv': "keeps block (gridAfterBlocks js) ?s \<and>
     (\<forall>j < length (js_words js). \<forall>i < reach tbl js (js_words js ! j).
         sol (cellAt ?s (wordCell (js_words js ! j) i))
           = (if wordCell (js_words js ! j) i = ?c \<and> b < length (js_words js)
              then [wordLetters tbl (js_words js ! b) ! i2]
              else [wordLetters tbl (js_words js ! j) ! i])) \<and>
     (\<forall>p. freeCell js p \<and> (\<forall>j < length (js_words js). \<forall>i < reach tbl js (js_words js ! j).
              p \<noteq> wordCell (js_words js ! j) i) \<longrightarrow> sol (cellAt ?s p) = []) \<and>
     errlog ?s = concat (map (wordDiags tbl js b e) [0..<length (js_words js)])"
    using inv unfolding lettersInv_def .
  have letters: "sol (cellAt ?s (wordCell (js_words js ! j) i))
           = (if wordCell (js_words js ! j) i = ?c
              then [wordLetters tbl (js_words js ! b) ! i2]
              else [wordLetters tbl (js_words js ! j) ! i])"
    if "j < length (js_words js)" "i < reach tbl js (js_words js ! j)" for j i
    using inv'[THEN conjunct2, THEN conjunct1] that assms(3) by simp
  have log: "errlog ?st = concat (map (wordDiags tbl js b e) [0..<length (js_words js)])"
    using inv'[THEN conjunct2, THEN conjunct2, THEN conjunct2] load_formatA_facts(1)[OF ne] by simp
  have "isCrossingConflict e" by (simp add: e isCrossingConflict_def)
  then have one: "filter isCrossingConflict (errlog ?st) = [e]"
    unfolding log using assms(3) by (simp add: filter_wordDiags)
  have same: "sol (cellAt ?st (wordCell (js_words js ! j) i))
                = sol (cellAt ?s (wordCell (js_words js ! j) i))"
    if "i < reach tbl js (js_words js ! j)" for j i
    using load_formatA_facts(2)[OF ne reach_free[OF that]] .
  have i2: "i2 < reach tbl js (js_words js ! b)" using crossOnceAt_only(2)[OF assms(4)] .
  have shared: "sol (cellAt ?st ?c) = [wordLetters tbl (js_words js ! b) ! i2]"
    unfolding same[OF i2] using letters[OF assms(3) i2] by simp
  have others: "\<forall>k < length (js_words js). \<forall>i < reach tbl js (js_words js ! k).
           wordCell (js_words js ! k) i \<noteq> ?c \<longrightarrow>
           sol (cellAt ?st (wordCell (js_words js ! k) i)) = [wordLetters tbl (js_words js ! k) ! i]"
  proof (intro allI impI)
    fix k i assume k: "k < length (js_words js)" and i: "i < reach tbl js (js_words js ! k)"
      and nc: "wordCell (js_words js ! k) i \<noteq> ?c"
    show "sol (cellAt ?st (wordCell (js_words js ! k) i)) = [wordLetters tbl (js_words js ! k) ! i]"
      unfolding same[OF i] letters[OF k i] if_not_P[OF nc] by (rule refl)
  qed
  have blank: "\<forall>p. freeCell js p
             \<and> (\<forall>k < length (js_words js). \<forall>i < reach tbl js (js_words js ! k).
                    p \<noteq> wordCell (js_words js ! k) i)
           \<longrightarrow> sol (cellAt ?st p) = []"
  proof (intro allI impI)
    fix p
    assume h: "freeCell js p
             \<and> (\<forall>k < length (js_words js). \<forall>i < reach tbl js (js_words js ! k).
                    p \<noteq> wordCell (js_words js ! k) i)"
    then have "sol (cellAt ?s p) = []"
      by (rule inv'[THEN conjunct2, THEN conjunct2, THEN conjunct1, rule_format])
    then show "sol (cellAt ?st p) = []"
      using load_formatA_facts(2)[OF ne, of p tbl] h by simp
  qed
  have count: "clueCount ?st = length (js_words js)" using ne by (rule load_formatA_facts(3))
  show ?thesis
    by (rule exI[of _ ?st]) (intro conjI load_returns one log shared others blank count)
qed


theorem C6_witness:
  "(0::nat) < 2 \<and> 2 < length (js_words exampleCrossing)
   \<and> crossOnceAt exampleTable exampleCrossing
         (js_words exampleCrossing ! 0) (js_words exampleCrossing ! 2) 1 0
   \<and> wordLetters exampleTable (js_words exampleCrossing ! 0) ! 1 = CHR ''A''
   \<and> wordLetters exampleTable (js_words exampleCrossing ! 2) ! 0 = char_of (213::nat)
   \<and> othersAgree exampleTable exampleCrossing 0 2
   \<and> reach exampleTable exampleCrossing (js_words exampleCrossing ! 4) = 2
   \<and> (case loadPuzzleFromJSON exampleTable exampleCrossing of
         Inl err \<Rightarrow> False
       | Inr st \<Rightarrow>
           errlog st
             = [CrossingConflict (js_words exampleCrossing ! 2) (1, 0, 0) ''A'' [char_of (213::nat)],
                WordHitsBlock (js_words exampleCrossing ! 4) (0, 2, 0)]
           \<and> filter isCrossingConflict (errlog st)
               = [CrossingConflict (js_words exampleCrossing ! 2) (1, 0, 0) ''A'' [char_of (213::nat)]]
           \<and> sol (cellAt st (1, 0, 0)) = [char_of (213::nat)]
           \<and> map (map (map sol)) (world st)
               = [[[''C'', [char_of (213::nat)], ''T''], [''A'', ''X'', ''O''], [[], [], []]]]
           \<and> clueCount st = 5)"
proof -
  let ?ws = "js_words exampleCrossing"
  let ?e = "CrossingConflict (?ws ! 2) (1, 0, 0) ''A'' [char_of (213::nat)]"
  have ab: "(0::nat) < 2" "2 < length ?ws" by (simp_all add: exampleCrossing_def)
  have cr: "crossOnceAt exampleTable exampleCrossing (?ws ! 0) (?ws ! 2) 1 0" by code_simp
  have l1: "wordLetters exampleTable (?ws ! 0) ! 1 = CHR ''A''" by code_simp
  have l2: "wordLetters exampleTable (?ws ! 2) ! 0 = char_of (213::nat)" by code_simp
  have c: "wordCell (?ws ! 2) 0 = (1, 0, 0)" by code_simp
  have df: "wordLetters exampleTable (?ws ! 0) ! 1 \<noteq> wordLetters exampleTable (?ws ! 2) ! 0"
    unfolding l1 l2 by code_simp
  have ag: "othersAgree exampleTable exampleCrossing 0 2" by code_simp
  have r4: "reach exampleTable exampleCrossing (?ws ! 4) = 2" by code_simp
  have n: "length ?ws = 5" by (simp add: exampleCrossing_def)
  obtain st where ret: "loadPuzzleFromJSON exampleTable exampleCrossing = Inr st"
    and one: "filter isCrossingConflict (errlog st) = [?e]"
    and log: "errlog st = concat (map (wordDiags exampleTable exampleCrossing 2 ?e) [0..<length ?ws])"
    and shared: "sol (cellAt st (1, 0, 0)) = [char_of (213::nat)]"
    and count: "clueCount st = length ?ws"
    using C6_crossing_conflict_reported_once[OF ab cr df ag] unfolding l1 l2 c by blast
  have "concat (map (wordDiags exampleTable exampleCrossing 2 ?e) [0..<length ?ws])
          = [?e, WordHitsBlock (?ws ! 4) (0, 2, 0)]"
    by code_simp
  then have log': "errlog st = [?e, WordHitsBlock (?ws ! 4) (0, 2, 0)]" using log by simp
  have st: "st = loadedState exampleTable exampleCrossing" using ret by (simp add: load_returns)
  have grid: "map (map (map sol)) (world st)
               = [[[''C'', [char_of (213::nat)], ''T''], [''A'', ''X'', ''O''], [[], [], []]]]"
    unfolding st by code_simp
  have count': "clueCount st = 5" using count n by simp
  have res: "case loadPuzzleFromJSON exampleTable exampleCrossing of
         Inl err \<Rightarrow> False
       | Inr st \<Rightarrow>
           errlog st = [?e, WordHitsBlock (?ws ! 4) (0, 2, 0)]
           \<and> filter isCrossingConflict (errlog st) = [?e]
           \<and> sol (cellAt st (1, 0, 0)) = [char_of (213::nat)]
           \<and> map (map (map sol)) (world st)
               = [[[''C'', [char_of (213::nat)], ''T''], [''A'', ''X'', ''O''], [[], [], []]]]
           \<and> clueCount st = 5"
    unfolding ret using log' one shared grid count' by simp
  show ?thesis using ab cr l1 l2 ag r4 res by (intro conjI)
qed

end
